theory Spec2Isabelle
  imports Main "HOL-Library.AList"
begin

section \<open>Task store (internal/store/task-store.go)\<close>

text \<open>
  The store keeps \<^verbatim>\<open>map[int]*models.Task\<close>: its values are pointers. Whether a caller
  holds a copy or the stored object itself is a question about addresses, so the model has
  an explicit heap of task objects. An address is an index into the heap; allocation
  appends, so a new object never shares its address with an older one (Go's collector
  frees only what nothing refers to). Every method of the store holds the store's lock from
  entry to return, so each one is an atomic step on the state.

  Go's \<^verbatim>\<open>int\<close> has 64 bits on the targets considered here, and \<^verbatim>\<open>nextID++\<close> wraps
  around. \<open>Create_wrap\<close> below is Create with that wrap-around written out, and the runs
  \<open>store_run_wrap\<close> use it. \<open>Create\<close> and \<open>store_run\<close> compute on unbounded integers: they are
  the same function as long as \<open>nextID\<close> stays below the largest int (lemma
  \<open>Create_wrap_eq\<close>), and are used where the counter's width plays no part.
\<close>

text \<open>
  Modelled from the spec: the package \<^verbatim>\<open>internal/models\<close> (the types Task, ErrorResponse,
  SuccessResponse, CreateTaskRequest and UpdateTaskRequest) is not among the sources. The
  spec gives a task as \<open>{id, title, done}\<close>; the store's code uses the fields ID, Title and
  Done.
\<close>

record Task =
  ID :: int
  Title :: string
  Done :: bool

type_synonym addr = nat

datatype store_error = ErrTaskNotFound | ErrInvalidID

record TaskStore =
  tasks :: "(int \<times> addr) list"
  nextID :: int

record World =
  heap :: "Task list"
  taskStore :: TaskStore

text \<open>\<^verbatim>\<open>&models.Task{...}\<close> and \<^verbatim>\<open>taskCopy := *task; &taskCopy\<close>: a new object.\<close>

definition alloc :: "Task list \<Rightarrow> Task \<Rightarrow> addr \<times> Task list" where
  "alloc h t = (length h, h @ [t])"

text \<open>Reading through a pointer; an address outside the heap has no object.\<close>

definition deref :: "Task list \<Rightarrow> addr \<Rightarrow> Task option" where
  "deref h a = (if a < length h then Some (h ! a) else None)"

definition NewTaskStore :: TaskStore where
  "NewTaskStore = \<lparr>tasks = [], nextID = 1\<rparr>"

definition NewWorld :: World where
  "NewWorld = \<lparr>heap = [], taskStore = NewTaskStore\<rparr>"

text \<open>Create stores the pointer and returns the very same pointer.\<close>

definition Create :: "World \<Rightarrow> string \<Rightarrow> addr \<times> World" where
  "Create w title =
     (let s = taskStore w;
          (task, h) = alloc (heap w) \<lparr>ID = nextID s, Title = title, Done = False\<rparr>
      in (task, \<lparr>heap = h,
                 taskStore = \<lparr>tasks = AList.update (nextID s) task (tasks s),
                              nextID = nextID s + 1\<rparr>\<rparr>))"

definition GetByID :: "World \<Rightarrow> int \<Rightarrow> (store_error + addr) \<times> World" where
  "GetByID w id' =
     (case map_of (tasks (taskStore w)) id' of
        None \<Rightarrow> (Inl ErrTaskNotFound, w)
      | Some task \<Rightarrow>
          (let (taskCopy, h) = alloc (heap w) (heap w ! task)
           in (Inr taskCopy, w\<lparr>heap := h\<rparr>)))"

text \<open>
  The two range loops. Go leaves the iteration order of a map open; the model walks the
  entries in the order of the association list.
\<close>

fun copy_tasks :: "Task list \<Rightarrow> addr list \<Rightarrow> addr list \<Rightarrow> addr list \<times> Task list" where
  "copy_tasks h out [] = (out, h)"
| "copy_tasks h out (task # rest) =
     (let (taskCopy, h') = alloc h (h ! task) in copy_tasks h' (out @ [taskCopy]) rest)"

definition GetAll :: "World \<Rightarrow> addr list \<times> World" where
  "GetAll w =
     (let (out, h) = copy_tasks (heap w) [] (map snd (tasks (taskStore w)))
      in (out, w\<lparr>heap := h\<rparr>))"

definition GetByStatus :: "World \<Rightarrow> bool \<Rightarrow> addr list \<times> World" where
  "GetByStatus w done =
     (let (out, h) = copy_tasks (heap w) []
                       (filter (\<lambda>task. Done (heap w ! task) = done)
                          (map snd (tasks (taskStore w))))
      in (out, w\<lparr>heap := h\<rparr>))"

definition Update :: "World \<Rightarrow> int \<Rightarrow> bool \<Rightarrow> store_error option \<times> World" where
  "Update w id' done =
     (case map_of (tasks (taskStore w)) id' of
        None \<Rightarrow> (Some ErrTaskNotFound, w)
      | Some task \<Rightarrow> (None, w\<lparr>heap := (heap w)[task := (heap w ! task)\<lparr>Done := done\<rparr>]\<rparr>))"

definition Delete :: "World \<Rightarrow> int \<Rightarrow> store_error option \<times> World" where
  "Delete w id' =
     (case map_of (tasks (taskStore w)) id' of
        None \<Rightarrow> (Some ErrTaskNotFound, w)
      | Some task \<Rightarrow>
          (None, w\<lparr>taskStore := (taskStore w)\<lparr>tasks := AList.delete id' (tasks (taskStore w))\<rparr>\<rparr>))"

subsection \<open>Sequences of store operations\<close>

datatype store_op =
    OpCreate string
  | OpGetByID int
  | OpGetAll
  | OpGetByStatus bool
  | OpUpdate int bool
  | OpDelete int

text \<open>One call: the new state, and the ID of the record a Create hands back.\<close>

fun store_step :: "World \<Rightarrow> store_op \<Rightarrow> int list \<times> World" where
  "store_step w (OpCreate title) =
     (let (task, w') = Create w title in ([ID (heap w' ! task)], w'))"
| "store_step w (OpGetByID id') = ([], snd (GetByID w id'))"
| "store_step w OpGetAll = ([], snd (GetAll w))"
| "store_step w (OpGetByStatus done) = ([], snd (GetByStatus w done))"
| "store_step w (OpUpdate id' done) = ([], snd (Update w id' done))"
| "store_step w (OpDelete id') = ([], snd (Delete w id'))"

fun store_run :: "World \<Rightarrow> store_op list \<Rightarrow> int list \<times> World" where
  "store_run w [] = ([], w)"
| "store_run w (op # ops) =
     (let (ids, w') = store_step w op; (ids', w'') = store_run w' ops
      in (ids @ ids', w''))"

definition created_ids :: "World \<Rightarrow> store_op list \<Rightarrow> int list" where
  "created_ids w ops = fst (store_run w ops)"

fun is_create :: "store_op \<Rightarrow> bool" where
  "is_create (OpCreate _) = True"
| "is_create _ = False"


text \<open>
  What holds of every state the operations can build: the map's pointers are inside the
  heap, every key is below the next ID, and a stored object carries its key as its ID (so
  no two keys share an object).
\<close>

definition store_wf :: "World \<Rightarrow> bool" where
  "store_wf w =
     (let ts = tasks (taskStore w) in
        distinct (map fst ts) \<and>
        list_all (\<lambda>(k, a). a < length (heap w) \<and> k < nextID (taskStore w) \<and>
                          ID (heap w ! a) = k) ts)"


text \<open>A caller's assignment through a pointer it holds: \<^verbatim>\<open>task.Title = title\<close>.\<close>

definition assign_Title :: "World \<Rightarrow> addr \<Rightarrow> string \<Rightarrow> World" where
  "assign_Title w task title = w\<lparr>heap := (heap w)[task := (heap w ! task)\<lparr>Title := title\<rparr>]\<rparr>"

text \<open>What a caller of GetByID reads through the pointer it is handed.\<close>

definition GetByID_task :: "World \<Rightarrow> int \<Rightarrow> store_error + Task" where
  "GetByID_task w id' =
     (case GetByID w id' of
        (Inl e, _) \<Rightarrow> Inl e
      | (Inr taskCopy, w') \<Rightarrow> Inr (heap w' ! taskCopy))"

subsection \<open>The counter as a 64-bit int\<close>

definition MaxInt :: int where
  "MaxInt = 2 ^ 63 - 1"

definition MinInt :: int where
  "MinInt = - (2 ^ 63)"

text \<open>The value of a 64-bit two's complement int that holds the mathematical result \<open>x\<close>.\<close>

definition wrap_int :: "int \<Rightarrow> int" where
  "wrap_int x = (x + 2 ^ 63) mod 2 ^ 64 - 2 ^ 63"

definition Create_wrap :: "World \<Rightarrow> string \<Rightarrow> addr \<times> World" where
  "Create_wrap w title =
     (let s = taskStore w;
          (task, h) = alloc (heap w) \<lparr>ID = nextID s, Title = title, Done = False\<rparr>
      in (task, \<lparr>heap = h,
                 taskStore = \<lparr>tasks = AList.update (nextID s) task (tasks s),
                              nextID = wrap_int (nextID s + 1)\<rparr>\<rparr>))"

fun store_step_wrap :: "World \<Rightarrow> store_op \<Rightarrow> int list \<times> World" where
  "store_step_wrap w (OpCreate title) =
     (let (task, w') = Create_wrap w title in ([ID (heap w' ! task)], w'))"
| "store_step_wrap w (OpGetByID id') = ([], snd (GetByID w id'))"
| "store_step_wrap w OpGetAll = ([], snd (GetAll w))"
| "store_step_wrap w (OpGetByStatus done) = ([], snd (GetByStatus w done))"
| "store_step_wrap w (OpUpdate id' done) = ([], snd (Update w id' done))"
| "store_step_wrap w (OpDelete id') = ([], snd (Delete w id'))"

fun store_run_wrap :: "World \<Rightarrow> store_op list \<Rightarrow> int list \<times> World" where
  "store_run_wrap w [] = ([], w)"
| "store_run_wrap w (op # ops) =
     (let (ids, w') = store_step_wrap w op; (ids', w'') = store_run_wrap w' ops
      in (ids @ ids', w''))"

definition created_ids_wrap :: "World \<Rightarrow> store_op list \<Rightarrow> int list" where
  "created_ids_wrap w ops = fst (store_run_wrap w ops)"

section \<open>Rate limiter (package middleware)\<close>

text \<open>
  The limiter keeps \<^verbatim>\<open>map[string]*visitor\<close>. \<^verbatim>\<open>getVisitor\<close> takes the lock, looks the
  identity up (creating object and entry when absent) and returns the pointer; \<^verbatim>\<open>allow\<close>
  then takes the lock a second time and works on the object through that pointer, never
  assigning to the map. So the visitor objects live in a heap of their own (\<open>cells\<close>, an
  address is an index and allocation appends), the map holds addresses, and the two locked
  regions are two steps, \<open>getVisitor\<close> and \<open>allow_section\<close>, between which other calls and
  the sweep may run. \<open>allow\<close> is the function as one caller runs it with nothing in between;
  the interleavings are the runs of \<open>rl_run\<close> further down.

  Times are nanoseconds on the process clock, durations are differences of times, both
  unbounded integers. (\<^verbatim>\<open>Sub\<close> and \<^verbatim>\<open>Since\<close> stop at the ends of the 64-bit range of a
  Duration, some 292 years, which leaves every comparison with one or five minutes as it is
  on the unbounded difference.) Every \<^verbatim>\<open>time.Now()\<close> of the source is a reading of its own: a call
  takes up to three (two when \<^verbatim>\<open>getVisitor\<close> creates the visitor, one for \<^verbatim>\<open>now\<close>),
  and the sweep takes one for each visitor it looks at. The readings are inputs of the
  model.
\<close>

definition Minute :: int where
  "Minute = 60 * 1000000000"

record visitor =
  tokens :: int
  lastSeen :: int
  lastRefill :: int

record RateLimiter =
  cells :: "visitor list"
  visitors :: "string \<rightharpoonup> addr"
  rate :: int
  cleanup :: int

record readings =
  atSeen :: int
  atRefill :: int
  atNow :: int

definition NewRateLimiter :: "int \<Rightarrow> RateLimiter" where
  "NewRateLimiter requestsPerMinute =
     \<lparr>cells = [], visitors = Map.empty, rate = requestsPerMinute, cleanup = 5 * Minute\<rparr>"

definition getVisitor :: "RateLimiter \<Rightarrow> string \<Rightarrow> int \<Rightarrow> int \<Rightarrow> addr \<times> RateLimiter" where
  "getVisitor rl ip seenAt refillAt =
     (case visitors rl ip of
        None \<Rightarrow>
          (let v = length (cells rl)
           in (v, rl\<lparr>cells := cells rl @
                         [\<lparr>tokens = rate rl, lastSeen = seenAt, lastRefill = refillAt\<rparr>],
                      visitors := (visitors rl)(ip \<mapsto> v)\<rparr>))
      | Some v \<Rightarrow> (v, rl))"

text \<open>The second locked region of \<^verbatim>\<open>allow\<close>, on the object the pointer \<open>v\<close> refers to.\<close>

definition allow_section :: "RateLimiter \<Rightarrow> addr \<Rightarrow> int \<Rightarrow> bool \<times> RateLimiter" where
  "allow_section rl v now =
     (let x = cells rl ! v;
          x1 = (if now - lastRefill x \<ge> Minute
                then x\<lparr>tokens := rate rl, lastRefill := now\<rparr> else x);
          x2 = x1\<lparr>lastSeen := now\<rparr>
      in if tokens x2 > 0
         then (True, rl\<lparr>cells := (cells rl)[v := x2\<lparr>tokens := tokens x2 - 1\<rparr>]\<rparr>)
         else (False, rl\<lparr>cells := (cells rl)[v := x2]\<rparr>))"

definition allow :: "RateLimiter \<Rightarrow> string \<Rightarrow> readings \<Rightarrow> bool \<times> RateLimiter" where
  "allow rl ip c =
     (let (v, rl1) = getVisitor rl ip (atSeen c) (atRefill c)
      in allow_section rl1 v (atNow c))"

text \<open>
  One tick of \<^verbatim>\<open>cleanupVisitors\<close>: \<open>seen ip\<close> is the clock when the entry of \<open>ip\<close> is
  examined. The entry goes, the object stays for whoever still holds a pointer to it.
\<close>

definition sweep :: "RateLimiter \<Rightarrow> (string \<Rightarrow> int) \<Rightarrow> RateLimiter" where
  "sweep rl seen =
     rl\<lparr>visitors := (\<lambda>ip. case visitors rl ip of
                             None \<Rightarrow> None
                           | Some v \<Rightarrow> if seen ip - lastSeen (cells rl ! v) > cleanup rl
                                      then None else Some v)\<rparr>"

subsection \<open>Calls that overlap\<close>

text \<open>
  A call of \<^verbatim>\<open>allow\<close> is named by the identity it is made for and a number that tells the
  requests of that identity apart. \<open>Enter\<close> is the call's \<^verbatim>\<open>getVisitor\<close> with its two
  readings, \<open>Section\<close> its second locked region with the reading \<open>now\<close>, \<open>Tick\<close> a sweep. The
  state of a run is the limiter together with the pointers held by the calls that have
  entered and not yet finished. An \<open>Enter\<close> of a call that is under way and a \<open>Section\<close> of a
  call that has not entered are no steps of any execution and change nothing.
\<close>

datatype rl_event =
    Enter string nat int int
  | Section string nat int
  | Tick "string \<Rightarrow> int"

record Running =
  lim :: RateLimiter
  held :: "string \<times> nat \<rightharpoonup> addr"

definition start :: "RateLimiter \<Rightarrow> Running" where
  "start rl = \<lparr>lim = rl, held = Map.empty\<rparr>"

fun rl_step :: "Running \<Rightarrow> rl_event \<Rightarrow> (string \<times> bool) list \<times> Running" where
  "rl_step st (Enter ip n seenAt refillAt) =
     (case held st (ip, n) of
        Some v \<Rightarrow> ([], st)
      | None \<Rightarrow>
          (let (v, rl) = getVisitor (lim st) ip seenAt refillAt
           in ([], \<lparr>lim = rl, held = (held st)((ip, n) \<mapsto> v)\<rparr>)))"
| "rl_step st (Section ip n now) =
     (case held st (ip, n) of
        None \<Rightarrow> ([], st)
      | Some v \<Rightarrow>
          (let (ok, rl) = allow_section (lim st) v now
           in ([(ip, ok)], \<lparr>lim = rl, held = (held st)((ip, n) := None)\<rparr>)))"
| "rl_step st (Tick seen) = ([], st\<lparr>lim := sweep (lim st) seen\<rparr>)"

fun rl_run :: "Running \<Rightarrow> rl_event list \<Rightarrow> (string \<times> bool) list \<times> Running" where
  "rl_run st [] = ([], st)"
| "rl_run st (e # es) =
     (let (out, st') = rl_step st e; (out', st'') = rl_run st' es in (out @ out', st''))"

text \<open>The answers one identity got, in the order of the locked regions that gave them.\<close>

definition answers :: "string \<Rightarrow> Running \<Rightarrow> rl_event list \<Rightarrow> bool list" where
  "answers ip st es = map snd (filter (\<lambda>(ip', ok). ip' = ip) (fst (rl_run st es)))"

text \<open>
  The limiter after a run that starts with no call under way, and after a run from a new
  limiter of capacity \<open>r\<close>.
\<close>

definition after_run :: "RateLimiter \<Rightarrow> rl_event list \<Rightarrow> RateLimiter" where
  "after_run rl es = lim (snd (rl_run (start rl) es))"

definition reached :: "int \<Rightarrow> rl_event list \<Rightarrow> RateLimiter" where
  "reached r es = after_run (NewRateLimiter r) es"


text \<open>
  The pointers of the map and the pointers held by calls are inside the heap, and no two
  identities share an object.
\<close>

definition limiter_wf :: "RateLimiter \<Rightarrow> bool" where
  "limiter_wf rl =
     ((\<forall>ip v. visitors rl ip = Some v \<longrightarrow> v < length (cells rl)) \<and>
      (\<forall>ip ip' v. visitors rl ip = Some v \<and> visitors rl ip' = Some v \<longrightarrow> ip = ip'))"

definition held_wf :: "Running \<Rightarrow> bool" where
  "held_wf st = (\<forall>k v. held st k = Some v \<longrightarrow> v < length (cells (lim st)))"

text \<open>
  Tokens left to an identity (a new visitor starts with the full bucket). And: what a run
  inside a window that starts at \<open>a\<close> keeps true of the identity: while it has no entry no
  call of it holds a pointer; once it has one, the object's window and last sighting are
  not older than \<open>a\<close>, and the calls holding a pointer to the object are the identity's own.
\<close>

definition tokens_left :: "RateLimiter \<Rightarrow> string \<Rightarrow> int" where
  "tokens_left rl ip =
     (case visitors rl ip of None \<Rightarrow> rate rl | Some v \<Rightarrow> tokens (cells rl ! v))"



definition tokens_ok :: "RateLimiter \<Rightarrow> bool" where
  "tokens_ok rl =
     (\<forall>x \<in> set (cells rl). tokens x \<le> rate rl \<and> (0 \<le> rate rl \<longrightarrow> 0 \<le> tokens x))"

text \<open>
  A run for the examples: eleven calls of one client within thirteen nanoseconds, two of
  them overlapping, a call of another client and a sweep in between.
\<close>

definition at :: "int \<Rightarrow> readings" where
  "at t = \<lparr>atSeen = t, atRefill = t, atNow = t\<rparr>"

definition call :: "string \<Rightarrow> nat \<Rightarrow> int \<Rightarrow> rl_event list" where
  "call ip n t = [Enter ip n t t, Section ip n t]"

definition burst :: "rl_event list" where
  "burst =
     call ''10.0.0.1:4000'' 1 0 @
     [Enter ''10.0.0.1:4000'' 2 1 1, Enter ''10.0.0.1:4000'' 3 1 1,
      Section ''10.0.0.1:4000'' 3 2, Section ''10.0.0.1:4000'' 2 3] @
     call ''10.0.0.2:4000'' 1 3 @ [Tick (\<lambda>ip. 4)] @
     call ''10.0.0.1:4000'' 4 5 @ call ''10.0.0.1:4000'' 5 6 @ call ''10.0.0.1:4000'' 6 7 @
     call ''10.0.0.1:4000'' 7 8 @ call ''10.0.0.1:4000'' 8 9 @ call ''10.0.0.1:4000'' 9 10 @
     call ''10.0.0.1:4000'' 10 11 @ call ''10.0.0.1:4000'' 11 12"

section \<open>Requests and response writers (net/http, encoding/json, strconv, strings, fmt)\<close>

text \<open>
  Modelled from the spec: the response and request bodies are values of the absent package
  \<^verbatim>\<open>internal/models\<close>. The spec gives the error body as \<open>{"error": string}\<close> and the
  acknowledgement as \<open>{updated: true}\<close>. What \<^verbatim>\<open>json.NewEncoder(w).Encode\<close> writes is kept
  as the value encoded, not as bytes; \<open>Bytes\<close> is a body written as it stands.
\<close>

datatype payload =
    JNull
  | JError string
  | JTask Task
  | JTasks "Task list"
  | JSuccess bool
  | Bytes string

text \<open>
  A response writer is the sequence of calls made on it. What the client receives is read
  off that sequence the way net/http sends it: the header fields set before the first
  \<^verbatim>\<open>WriteHeader\<close> or \<^verbatim>\<open>Write\<close>, the code of the first \<^verbatim>\<open>WriteHeader\<close> (200 when the
  body starts without one), and everything written.
\<close>

datatype rw_call = SetHeader string string | WriteHeader int | Write payload

type_synonym ResponseWriter = "rw_call list"

record Response =
  status :: int
  header :: "string \<rightharpoonup> string"
  body :: "payload list"

fun is_SetHeader :: "rw_call \<Rightarrow> bool" where
  "is_SetHeader (SetHeader k v) = True"
| "is_SetHeader _ = False"

fun set_header :: "rw_call \<Rightarrow> (string \<rightharpoonup> string) \<Rightarrow> (string \<rightharpoonup> string)" where
  "set_header (SetHeader k v) h = h(k \<mapsto> v)"
| "set_header _ h = h"

fun written :: "rw_call \<Rightarrow> payload list" where
  "written (Write p) = [p]"
| "written _ = []"

definition response :: "ResponseWriter \<Rightarrow> Response" where
  "response w =
     \<lparr>status = (case dropWhile is_SetHeader w of WriteHeader code # _ \<Rightarrow> code | _ \<Rightarrow> 200),
      header = fold set_header (takeWhile is_SetHeader w) Map.empty,
      body = concat (map written w)\<rparr>"

text \<open>
  A request, as far as the handlers read it: \<open>queryId\<close> and \<open>queryDone\<close> are
  \<^verbatim>\<open>r.URL.Query().Get\<close> of \<open>id\<close> and \<open>done\<close> (empty when absent), \<open>headerAPIKey\<close> is
  \<^verbatim>\<open>r.Header.Get("X-API-KEY")\<close>, \<open>bodyTitle\<close> and \<open>bodyDone\<close> are what decoding the body
  into a CreateTaskRequest or an UpdateTaskRequest gives (\<open>None\<close> when the decoder returns
  an error), \<open>ctxRequestID\<close> is the value of the context under RequestIDKey, \<open>clock\<close>
  holds the readings of the process clock taken while the rate limiter handles the request,
  and \<open>meanwhile\<close> are the store operations of other requests that run after Create has
  returned to CreateTask and before CreateTask encodes the record it points to.
\<close>

record Request =
  Method :: string
  Path :: string
  queryId :: string
  queryDone :: string
  headerAPIKey :: string
  RemoteAddr :: string
  bodyTitle :: "string option"
  bodyDone :: "bool option"
  ctxRequestID :: "string option"
  clock :: readings
  meanwhile :: "store_op list"

text \<open>A line of the log, without its timestamp and duration.\<close>

record LogLine =
  logMethod :: string
  logPath :: string
  logStatus :: int
  logRequestID :: "string option"

text \<open>The state the handlers share: the store, the limiter, the counter, the log.\<close>

record Sys =
  world :: World
  limiter :: RateLimiter
  requestIDCounter :: int
  logged :: "LogLine list"

type_synonym Handler = "ResponseWriter \<Rightarrow> Request \<Rightarrow> Sys \<Rightarrow> ResponseWriter \<times> Sys"

subsection \<open>Library functions\<close>

text \<open>\<^verbatim>\<open>%d\<close> of fmt: decimal digits, a minus sign before a negative number.\<close>

fun show_nat :: "nat \<Rightarrow> string" where
  "show_nat n =
     (if n < 10 then [''0123456789'' ! n]
      else show_nat (n div 10) @ [''0123456789'' ! (n mod 10)])"

declare show_nat.simps [simp del]

definition show_int :: "int \<Rightarrow> string" where
  "show_int i = (if i < 0 then CHR ''-'' # show_nat (nat (- i)) else show_nat (nat i))"

text \<open>
  \<^verbatim>\<open>strconv.Atoi\<close>: an optional sign and at least one decimal digit, nothing else; a value
  outside 64 bits is an error.
\<close>

fun digits_value :: "nat \<Rightarrow> string \<Rightarrow> nat option" where
  "digits_value acc [] = Some acc"
| "digits_value acc (c # cs) =
     (if c \<in> set ''0123456789''
      then digits_value (10 * acc + (of_char c - 48)) cs else None)"

definition Atoi :: "string \<Rightarrow> int option" where
  "Atoi s =
     (let (neg, ds) = (case s of
                         [] \<Rightarrow> (False, [])
                       | c # cs \<Rightarrow> if c = CHR ''-'' then (True, cs)
                                  else if c = CHR ''+'' then (False, cs) else (False, s))
      in if ds = [] then None
         else (case digits_value 0 ds of
                 None \<Rightarrow> None
               | Some n \<Rightarrow>
                   (let v = (if neg then - int n else int n)
                    in if - (2 ^ 63) \<le> v \<and> v < 2 ^ 63 then Some v else None)))"

definition ParseBool :: "string \<Rightarrow> bool option" where
  "ParseBool str =
     (if str \<in> set [''1'', ''t'', ''T'', ''TRUE'', ''true'', ''True''] then Some True
      else if str \<in> set [''0'', ''f'', ''F'', ''FALSE'', ''false'', ''False''] then Some False
      else None)"

text \<open>
  \<^verbatim>\<open>strings.TrimSpace\<close> on the bytes of a string in UTF-8: leading and trailing white
  space goes, white space as Unicode defines it. These are the encodings of the code points
  U+0009 to U+000D, U+0020, U+0085, U+00A0, U+1680, U+2000 to U+200A, U+2028, U+2029,
  U+202F, U+205F and U+3000.
\<close>

definition whitespace :: "string list" where
  "whitespace =
     [[CHR 0x09], [CHR 0x0A], [CHR 0x0B], [CHR 0x0C], [CHR 0x0D], [CHR 0x20],
      [CHR 0xC2, CHR 0x85], [CHR 0xC2, CHR 0xA0], [CHR 0xE1, CHR 0x9A, CHR 0x80],
      [CHR 0xE2, CHR 0x80, CHR 0x80], [CHR 0xE2, CHR 0x80, CHR 0x81],
      [CHR 0xE2, CHR 0x80, CHR 0x82], [CHR 0xE2, CHR 0x80, CHR 0x83],
      [CHR 0xE2, CHR 0x80, CHR 0x84], [CHR 0xE2, CHR 0x80, CHR 0x85],
      [CHR 0xE2, CHR 0x80, CHR 0x86], [CHR 0xE2, CHR 0x80, CHR 0x87],
      [CHR 0xE2, CHR 0x80, CHR 0x88], [CHR 0xE2, CHR 0x80, CHR 0x89],
      [CHR 0xE2, CHR 0x80, CHR 0x8A], [CHR 0xE2, CHR 0x80, CHR 0xA8],
      [CHR 0xE2, CHR 0x80, CHR 0xA9], [CHR 0xE2, CHR 0x80, CHR 0xAF],
      [CHR 0xE2, CHR 0x81, CHR 0x9F], [CHR 0xE3, CHR 0x80, CHR 0x80]]"

function trimLeft :: "string list \<Rightarrow> string \<Rightarrow> string" where
  "trimLeft spaces s =
     (case find (\<lambda>e. e \<noteq> [] \<and> take (length e) s = e) spaces of
        None \<Rightarrow> s
      | Some e \<Rightarrow> trimLeft spaces (drop (length e) s))"
  by pat_completeness auto
termination
proof (relation "measure (\<lambda>(spaces, s). length s)")
  show "wf (measure (\<lambda>(spaces, s). length s))" by simp
next
  fix spaces :: "string list" and s e :: string
  assume "find (\<lambda>e. e \<noteq> [] \<and> take (length e) s = e) spaces = Some e"
  then have e: "e \<noteq> []" "take (length e) s = e" by (auto simp: find_Some_iff)
  from e(2) have "length (take (length e) s) = length e" by simp
  then have "length e \<le> length s" by simp
  with e(1) show "((spaces, drop (length e) s), (spaces, s)) \<in> measure (\<lambda>(spaces, s). length s)"
    by (cases e) auto
qed

declare trimLeft.simps [simp del]

definition TrimSpace :: "string \<Rightarrow> string" where
  "TrimSpace s = rev (trimLeft (map rev whitespace) (rev (trimLeft whitespace s)))"



section \<open>Task handlers (package handlers)\<close>

definition MaxTitleLength :: int where
  "MaxTitleLength = 200"

definition respondJSON :: "ResponseWriter \<Rightarrow> int \<Rightarrow> payload \<Rightarrow> ResponseWriter" where
  "respondJSON w code data =
     w @ [SetHeader ''Content-Type'' ''application/json'', WriteHeader code, Write data]"

definition GetAllTasks :: Handler where
  "GetAllTasks w r s =
     (let doneParam = queryDone r
      in if doneParam \<noteq> []
         then (case ParseBool doneParam of
                 None \<Rightarrow> (respondJSON w 400 (JError ''invalid done parameter''), s)
               | Some done \<Rightarrow>
                   (let (ts, world') = GetByStatus (world s) done
                    in (respondJSON w 200 (JTasks (map (\<lambda>t. heap world' ! t) ts)),
                        s\<lparr>world := world'\<rparr>)))
         else (let (ts, world') = GetAll (world s)
               in (respondJSON w 200 (JTasks (map (\<lambda>t. heap world' ! t) ts)),
                   s\<lparr>world := world'\<rparr>)))"

definition GetTask :: Handler where
  "GetTask w r s =
     (let idStr = queryId r
      in if idStr = [] then GetAllTasks w r s
         else (case Atoi idStr of
                 None \<Rightarrow> (respondJSON w 400 (JError ''invalid id''), s)
               | Some id' \<Rightarrow>
                   if id' \<le> 0 then (respondJSON w 400 (JError ''invalid id''), s)
                   else (case GetByID (world s) id' of
                           (Inl err, world') \<Rightarrow>
                             if err = ErrTaskNotFound
                             then (respondJSON w 404 (JError ''task not found''),
                                   s\<lparr>world := world'\<rparr>)
                             else (respondJSON w 200 JNull, s\<lparr>world := world'\<rparr>)
                         | (Inr task, world') \<Rightarrow>
                             (respondJSON w 200 (JTask (heap world' ! task)),
                              s\<lparr>world := world'\<rparr>))))"

text \<open>
  CreateTask keeps the pointer Create returned and encodes the record it points to after
  the store's lock has been released: what other requests did to the store in between
  (\<open>meanwhile\<close>) has happened when the record is read.
\<close>

definition CreateTask :: Handler where
  "CreateTask w r s =
     (case bodyTitle r of
        None \<Rightarrow> (respondJSON w 400 (JError ''invalid request body''), s)
      | Some decoded \<Rightarrow>
          (let title = TrimSpace decoded
           in if title = [] then (respondJSON w 400 (JError ''invalid title''), s)
              else if int (length title) > MaxTitleLength
              then (respondJSON w 400
                      (JError (''title exceeds maximum length of '' @ show_int MaxTitleLength
                               @ '' characters'')), s)
              else (let (task, world') = Create_wrap (world s) title;
                        world'' = snd (store_run_wrap world' (meanwhile r))
                    in (respondJSON w 201 (JTask (heap world'' ! task)),
                        s\<lparr>world := world''\<rparr>))))"

definition UpdateTask :: Handler where
  "UpdateTask w r s =
     (let idStr = queryId r
      in if idStr = [] then (respondJSON w 400 (JError ''id parameter is required''), s)
         else (case Atoi idStr of
                 None \<Rightarrow> (respondJSON w 400 (JError ''invalid id''), s)
               | Some id' \<Rightarrow>
                   if id' \<le> 0 then (respondJSON w 400 (JError ''invalid id''), s)
                   else (case bodyDone r of
                           None \<Rightarrow> (respondJSON w 400 (JError ''invalid request body''), s)
                         | Some done \<Rightarrow>
                             (let (err, world') = Update (world s) id' done
                              in if err = Some ErrTaskNotFound
                                 then (respondJSON w 404 (JError ''task not found''),
                                       s\<lparr>world := world'\<rparr>)
                                 else (respondJSON w 200 (JSuccess True),
                                       s\<lparr>world := world'\<rparr>)))))"

definition DeleteTask :: Handler where
  "DeleteTask w r s =
     (let idStr = queryId r
      in if idStr = [] then (respondJSON w 400 (JError ''id parameter is required''), s)
         else (case Atoi idStr of
                 None \<Rightarrow> (respondJSON w 400 (JError ''invalid id''), s)
               | Some id' \<Rightarrow>
                   if id' \<le> 0 then (respondJSON w 400 (JError ''invalid id''), s)
                   else (let (err, world') = Delete (world s) id'
                         in if err = Some ErrTaskNotFound
                            then (respondJSON w 404 (JError ''task not found''),
                                  s\<lparr>world := world'\<rparr>)
                            else (respondJSON w 200 (JSuccess True),
                                  s\<lparr>world := world'\<rparr>))))"

section \<open>Router (package router)\<close>

type_synonym Router = "string \<rightharpoonup> (string \<rightharpoonup> Handler)"

definition NewRouter :: Router where
  "NewRouter = Map.empty"

definition Handle :: "Router \<Rightarrow> string \<Rightarrow> string \<Rightarrow> Handler \<Rightarrow> Router" where
  "Handle routes method path handler =
     routes(method \<mapsto> (case routes method of
                          None \<Rightarrow> Map.empty(path \<mapsto> handler)
                        | Some paths \<Rightarrow> paths(path \<mapsto> handler)))"

definition GET :: "Router \<Rightarrow> string \<Rightarrow> Handler \<Rightarrow> Router" where
  "GET routes path handler = Handle routes ''GET'' path handler"

definition POST :: "Router \<Rightarrow> string \<Rightarrow> Handler \<Rightarrow> Router" where
  "POST routes path handler = Handle routes ''POST'' path handler"

definition PATCH :: "Router \<Rightarrow> string \<Rightarrow> Handler \<Rightarrow> Router" where
  "PATCH routes path handler = Handle routes ''PATCH'' path handler"

definition DELETE :: "Router \<Rightarrow> string \<Rightarrow> Handler \<Rightarrow> Router" where
  "DELETE routes path handler = Handle routes ''DELETE'' path handler"

text \<open>\<^verbatim>\<open>http.NotFound\<close>: the plain-text reply of \<^verbatim>\<open>http.Error\<close> with code 404.\<close>

definition NotFound :: Handler where
  "NotFound w r s =
     (w @ [SetHeader ''Content-Type'' ''text/plain; charset=utf-8'',
           SetHeader ''X-Content-Type-Options'' ''nosniff'',
           WriteHeader 404, Write (Bytes (''404 page not found'' @ [CHR 0x0A]))], s)"

definition ServeHTTP :: "Router \<Rightarrow> Handler" where
  "ServeHTTP routes w req s =
     (let path = takeWhile (\<lambda>c. c \<noteq> CHR ''?'') (Path req)
      in case routes (Method req) of
           None \<Rightarrow> NotFound w req s
         | Some handlers \<Rightarrow>
             (case handlers path of
                None \<Rightarrow> NotFound w req s
              | Some handler \<Rightarrow> handler w req s))"

section \<open>Middleware (package middleware)\<close>

definition APIKeyAuth :: "(string \<rightharpoonup> bool) \<Rightarrow> Handler \<Rightarrow> Handler" where
  "APIKeyAuth validKeys next w r s =
     (let apiKey = headerAPIKey r
      in if apiKey = [] \<or> \<not> (case validKeys apiKey of None \<Rightarrow> False | Some b \<Rightarrow> b)
         then (w @ [SetHeader ''Content-Type'' ''application/json'', WriteHeader 401,
                    Write (JError ''unauthorized'')], s)
         else next w r s)"

text \<open>
  The wrapper of the logger starts with code 200 and takes the code of every
  \<^verbatim>\<open>WriteHeader\<close> made through it: the calls the inner handler added to the writer.
\<close>

fun capture :: "rw_call \<Rightarrow> int \<Rightarrow> int" where
  "capture (WriteHeader code) statusCode = code"
| "capture _ statusCode = statusCode"

definition Logger :: "Handler \<Rightarrow> Handler" where
  "Logger next w r s =
     (let (w', s') = next w r s;
          statusCode = fold capture (drop (length w) w') 200;
          requestID = ctxRequestID r
      in (w', s'\<lparr>logged := logged s' @
                   [\<lparr>logMethod = Method r, logPath = Path r, logStatus = statusCode,
                     logRequestID = requestID\<rparr>]\<rparr>))"

text \<open>\<^verbatim>\<open>requestIDCounter++\<close> on a 64-bit int.\<close>

definition RequestID :: "Handler \<Rightarrow> Handler" where
  "RequestID next w r s =
     (let s1 = s\<lparr>requestIDCounter := wrap_int (requestIDCounter s + 1)\<rparr>;
          reqID = ''req-'' @ show_int (requestIDCounter s1)
      in next (w @ [SetHeader ''X-Request-ID'' reqID]) (r\<lparr>ctxRequestID := Some reqID\<rparr>) s1)"

definition Limit :: "Handler \<Rightarrow> Handler" where
  "Limit next w r s =
     (let ip = RemoteAddr r;
          (ok, rl) = allow (limiter s) ip (clock r);
          s1 = s\<lparr>limiter := rl\<rparr>
      in if \<not> ok
         then (w @ [SetHeader ''Content-Type'' ''application/json'', WriteHeader 429,
                    Write (JError ''rate limit exceeded'')], s1)
         else next w r s1)"

text \<open>The loop of Chain runs \<open>i\<close> from the last index down to 0; \<open>n\<close> is \<open>i + 1\<close>.\<close>

fun chain_loop :: "(Handler \<Rightarrow> Handler) list \<Rightarrow> nat \<Rightarrow> Handler \<Rightarrow> Handler" where
  "chain_loop middlewares 0 final = final"
| "chain_loop middlewares (Suc i) final = chain_loop middlewares i ((middlewares ! i) final)"

definition Chain :: "(Handler \<Rightarrow> Handler) list \<Rightarrow> Handler \<Rightarrow> Handler" where
  "Chain middlewares final = chain_loop middlewares (length middlewares) final"

section \<open>The server (cmd/api/main.go)\<close>

definition health :: Handler where
  \<open>health w r s =
     (w @ [SetHeader ''Content-Type'' ''application/json'', WriteHeader 200,
           Write (Bytes ''{"status":"healthy"}'')], s)\<close>

definition main_router :: Router where
  "main_router =
     (let r = NewRouter;
          r = GET r ''/v1/tasks'' GetTask;
          r = POST r ''/v1/tasks'' CreateTask;
          r = PATCH r ''/v1/tasks'' UpdateTask;
          r = DELETE r ''/v1/tasks'' DeleteTask;
          r = GET r ''/health'' health
      in r)"

definition validAPIKeys :: "string \<rightharpoonup> bool" where
  "validAPIKeys =
     [''secret12345'' \<mapsto> True, ''dev-key-001'' \<mapsto> True, ''production-key-1'' \<mapsto> True]"

definition main_handler :: Handler where
  "main_handler =
     Chain [Logger, RequestID, Limit, APIKeyAuth validAPIKeys] (ServeHTTP main_router)"

text \<open>The state when the server starts listening.\<close>

definition main_init :: Sys where
  "main_init =
     \<lparr>world = NewWorld, limiter = NewRateLimiter 10, requestIDCounter = 0, logged = []\<rparr>"

text \<open>One request through the server, and a sequence of them one after the other.\<close>

definition serve :: "Sys \<Rightarrow> Request \<Rightarrow> Response \<times> Sys" where
  "serve s r = (let (w, s') = main_handler [] r s in (response w, s'))"

fun serve_all :: "Sys \<Rightarrow> Request list \<Rightarrow> Response list \<times> Sys" where
  "serve_all s [] = ([], s)"
| "serve_all s (r # rs) =
     (let (resp, s') = serve s r; (resps, s'') = serve_all s' rs in (resp # resps, s''))"

text \<open>
  An inner handler leaves the request ID alone: it only adds calls to the writer, none of
  them sets X-Request-ID, and it does not touch the counter.
\<close>

definition keeps_request_id :: "Handler \<Rightarrow> bool" where
  "keeps_request_id h =
     (\<forall>w r s. \<exists>calls. fst (h w r s) = w @ calls \<and>
        (\<forall>v. SetHeader ''X-Request-ID'' v \<notin> set calls) \<and>
        requestIDCounter (snd (h w r s)) = requestIDCounter s)"

text \<open>
  Requests for the examples, with no query and no body, and a state of the server in which
  the client of these requests has used up its bucket.
\<close>

definition request :: "string \<Rightarrow> string \<Rightarrow> string \<Rightarrow> Request" where
  "request method path key =
     \<lparr>Method = method, Path = path, queryId = [], queryDone = [], headerAPIKey = key,
      RemoteAddr = ''10.0.0.1:4000'', bodyTitle = None, bodyDone = None,
      ctxRequestID = None, clock = at 13, meanwhile = []\<rparr>"

definition post :: "string option \<Rightarrow> Request" where
  "post decoded = (request ''POST'' ''/v1/tasks'' ''secret12345'')\<lparr>bodyTitle := decoded\<rparr>"

definition exhausted :: Sys where
  "exhausted =
     main_init\<lparr>limiter := reached 10 burst\<rparr>"

section \<open>Properties of the task store\<close>

lemma alloc_simps [simp]: "fst (alloc h t) = length h" "snd (alloc h t) = h @ [t]"
  by (simp_all add: alloc_def)

lemma copy_tasks_heap: "\<exists>ext. snd (copy_tasks h out as) = h @ ext"
proof (induction as arbitrary: h out)
  case Nil
  then show ?case by simp
next
  case (Cons a as)
  from Cons.IH [of "h @ [h ! a]" "out @ [length h]"]
  show ?case by (auto simp: alloc_def)
qed

lemma update_fresh_key: "k \<notin> fst ` set al \<Longrightarrow> AList.update k v al = al @ [(k, v)]"
  by (induction al) auto

lemma Create_result:
  "Create w title =
     (length (heap w),
      \<lparr>heap = heap w @ [\<lparr>ID = nextID (taskStore w), Title = title, Done = False\<rparr>],
       taskStore = \<lparr>tasks = AList.update (nextID (taskStore w)) (length (heap w)) (tasks (taskStore w)),
                    nextID = nextID (taskStore w) + 1\<rparr>\<rparr>)"
  by (simp add: Create_def alloc_def Let_def)

lemma store_step_ids:
  "fst (store_step w op) = (if is_create op then [nextID (taskStore w)] else [])"
  by (cases op) (simp_all add: Create_result)

lemma GetByID_store: "taskStore (snd (GetByID w i)) = taskStore w"
  by (simp add: GetByID_def alloc_def split: option.splits)

lemma GetAll_store: "taskStore (snd (GetAll w)) = taskStore w"
  by (simp add: GetAll_def split: prod.splits)

lemma GetByStatus_store: "taskStore (snd (GetByStatus w d)) = taskStore w"
  by (simp add: GetByStatus_def split: prod.splits)

lemma Update_store: "taskStore (snd (Update w i d)) = taskStore w"
  by (simp add: Update_def split: option.splits)

lemma Delete_nextID: "nextID (taskStore (snd (Delete w i))) = nextID (taskStore w)"
  by (simp add: Delete_def split: option.splits)

lemma store_step_nextID:
  "nextID (taskStore (snd (store_step w op))) =
     nextID (taskStore w) + (if is_create op then 1 else 0)"
  by (cases op)
     (simp_all add: Create_result GetByID_store GetAll_store GetByStatus_store Update_store
        Delete_nextID)

lemma store_run_ids:
  "fst (store_run w ops) =
     [nextID (taskStore w) .. nextID (taskStore w) + int (length (filter is_create ops)) - 1]"
proof (induction ops arbitrary: w)
  case Nil
  then show ?case by simp
next
  case (Cons op ops)
  obtain ids w' where step: "store_step w op = (ids, w')" by (cases "store_step w op")
  have ids: "ids = (if is_create op then [nextID (taskStore w)] else [])"
    using store_step_ids [of w op] step by simp
  have nxt: "nextID (taskStore w') = nextID (taskStore w) + (if is_create op then 1 else 0)"
    using store_step_nextID [of w op] step by simp
  show ?case
  proof (cases "is_create op")
    case True
    then show ?thesis
      using Cons.IH [of w'] step ids nxt
      by (simp add: split_beta upto_rec1 [of "nextID (taskStore w)"] algebra_simps)
  next
    case False
    then show ?thesis
      using Cons.IH [of w'] step ids nxt by (simp add: split_beta)
  qed
qed

lemma store_wf_alt:
  "store_wf w \<longleftrightarrow>
     distinct (map fst (tasks (taskStore w))) \<and>
     (\<forall>(k, a) \<in> set (tasks (taskStore w)).
        a < length (heap w) \<and> k < nextID (taskStore w) \<and> ID (heap w ! a) = k)"
  by (simp add: store_wf_def Let_def list_all_iff)


lemma store_wf_extend_heap:
  assumes "store_wf w"
  shows "store_wf (w\<lparr>heap := heap w @ ext\<rparr>)"
  using assms by (auto simp: store_wf_alt nth_append)

lemma store_wf_Create:
  assumes "store_wf w"
  shows "store_wf (snd (Create w title))"
proof -
  let ?n = "nextID (taskStore w)" and ?ts = "tasks (taskStore w)"
  have fresh: "?n \<notin> fst ` set ?ts"
    using assms by (auto simp: store_wf_alt)
  have upd: "AList.update ?n (length (heap w)) ?ts = ?ts @ [(?n, length (heap w))]"
    using fresh by (rule update_fresh_key)
  show ?thesis
    using assms fresh
    by (auto simp: Create_result upd store_wf_alt nth_append)
qed

lemma GetByID_heap: "\<exists>ext. snd (GetByID w i) = w\<lparr>heap := heap w @ ext\<rparr>"
proof (cases "map_of (tasks (taskStore w)) i")
  case None
  then have "snd (GetByID w i) = w\<lparr>heap := heap w @ []\<rparr>" by (simp add: GetByID_def)
  then show ?thesis by blast
next
  case (Some a)
  then have "snd (GetByID w i) = w\<lparr>heap := heap w @ [heap w ! a]\<rparr>"
    by (simp add: GetByID_def alloc_def)
  then show ?thesis by blast
qed

lemma GetAll_heap: "\<exists>ext. snd (GetAll w) = w\<lparr>heap := heap w @ ext\<rparr>"
  using copy_tasks_heap [of "heap w" "[]" "map snd (tasks (taskStore w))"]
  by (auto simp: GetAll_def split: prod.splits)

lemma GetByStatus_heap: "\<exists>ext. snd (GetByStatus w d) = w\<lparr>heap := heap w @ ext\<rparr>"
  using copy_tasks_heap [of "heap w" "[]"
      "filter (\<lambda>task. Done (heap w ! task) = d) (map snd (tasks (taskStore w)))"]
  by (auto simp: GetByStatus_def split: prod.splits)

lemma store_wf_Update:
  assumes "store_wf w"
  shows "store_wf (snd (Update w i d))"
proof (cases "map_of (tasks (taskStore w)) i")
  case None
  then show ?thesis using assms by (simp add: Update_def)
next
  case (Some a)
  from Some have "(i, a) \<in> set (tasks (taskStore w))" by (rule map_of_SomeD)
  with assms have "a < length (heap w)" by (auto simp: store_wf_alt)
  then have "ID ((heap w)[a := (heap w ! a)\<lparr>Done := d\<rparr>] ! b) = ID (heap w ! b)" for b
    by (cases "b = a") simp_all
  with Some show ?thesis
    using assms by (auto simp: Update_def store_wf_alt)
qed

lemma store_wf_Delete:
  assumes "store_wf w"
  shows "store_wf (snd (Delete w i))"
proof (cases "map_of (tasks (taskStore w)) i")
  case None
  then show ?thesis using assms by (simp add: Delete_def)
next
  case (Some a)
  then show ?thesis
    using assms
    by (auto simp: Delete_def store_wf_alt AList.delete_eq distinct_map_filter)
qed

lemma store_wf_step:
  assumes "store_wf w"
  shows "store_wf (snd (store_step w op))"
proof (cases op)
  case (OpCreate title)
  then show ?thesis using store_wf_Create [OF assms, of title] by (simp add: split_beta)
next
  case (OpGetByID i)
  then show ?thesis using GetByID_heap [of w i] store_wf_extend_heap [OF assms] by auto
next
  case OpGetAll
  then show ?thesis using GetAll_heap [of w] store_wf_extend_heap [OF assms] by auto
next
  case (OpGetByStatus d)
  then show ?thesis using GetByStatus_heap [of w d] store_wf_extend_heap [OF assms] by auto
next
  case (OpUpdate i d)
  then show ?thesis using store_wf_Update [OF assms] by simp
next
  case (OpDelete i)
  then show ?thesis using store_wf_Delete [OF assms] by simp
qed

lemma store_wf_run:
  "store_wf w \<Longrightarrow> store_wf (snd (store_run w ops))"
proof (induction ops arbitrary: w)
  case Nil
  then show ?case by simp
next
  case (Cons op ops)
  from Cons.IH [OF store_wf_step [OF Cons.prems, of op]]
  show ?case by (simp add: split_beta)
qed




lemma GetByID_task_present:
  "map_of (tasks (taskStore w)) i = Some a \<Longrightarrow> GetByID_task w i = Inr (heap w ! a)"
  by (simp add: GetByID_task_def GetByID_def alloc_def)

lemma GetByID_task_absent:
  "map_of (tasks (taskStore w)) i = None \<Longrightarrow> GetByID_task w i = Inl ErrTaskNotFound"
  by (simp add: GetByID_task_def GetByID_def)




text \<open>
  Claim C4. The pointer Create returns is the pointer the map holds, not a copy. On a new
  store, after \<open>Create "a"\<close> and \<open>Update 1 True\<close> the caller of Create reads
  \<open>Done = True\<close> through the pointer it was given before the update; and when that
  caller assigns a title through the pointer, GetByID gives the new title.
\<close>

theorem Create_returns_stored_pointer:
  "(let (task, w1) = Create NewWorld ''a'';
        (err, w2) = Update w1 1 True;
        w3 = assign_Title w2 task ''b''
    in map_of (tasks (taskStore w1)) 1 = Some task \<and>
       deref (heap w1) task = Some \<lparr>ID = 1, Title = ''a'', Done = False\<rparr> \<and>
       err = None \<and>
       deref (heap w2) task = Some \<lparr>ID = 1, Title = ''a'', Done = True\<rparr> \<and>
       GetByID_task w3 1 = Inr \<lparr>ID = 1, Title = ''b'', Done = True\<rparr>)"
  by (simp add: Create_result NewWorld_def NewTaskStore_def Update_def deref_def
      assign_Title_def GetByID_task_def GetByID_def alloc_def)

text \<open>GetByID, in contrast, hands out a new object that no later Update reaches.\<close>

lemma GetByID_returns_fresh_copy:
  assumes "store_wf w" "map_of (tasks (taskStore w)) i = Some a"
  shows "\<exists>p w'. GetByID w i = (Inr p, w') \<and> p \<notin> snd ` set (tasks (taskStore w')) \<and>
           p \<noteq> a \<and> deref (heap w') p = Some (heap w ! a) \<and>
           (\<forall>j d. deref (heap (snd (Update w' j d))) p = Some (heap w ! a))"
proof -
  have res: "GetByID w i = (Inr (length (heap w)), w\<lparr>heap := heap w @ [heap w ! a]\<rparr>)"
    using assms(2) by (simp add: GetByID_def alloc_def)
  have bound: "\<forall>(k, b) \<in> set (tasks (taskStore w)). b < length (heap w)"
    using assms(1) by (auto simp: store_wf_alt)
  then have notin: "length (heap w) \<notin> snd ` set (tasks (taskStore w))" by auto
  from assms(2) have "(i, a) \<in> set (tasks (taskStore w))" by (rule map_of_SomeD)
  with bound have "a < length (heap w)" by auto
  have upd: "deref (heap (snd (Update (w\<lparr>heap := heap w @ [heap w ! a]\<rparr>) j d))) (length (heap w))
               = Some (heap w ! a)" for j d
  proof (cases "map_of (tasks (taskStore w)) j")
    case None
    then show ?thesis by (simp add: Update_def deref_def)
  next
    case (Some b)
    then have "(j, b) \<in> set (tasks (taskStore w))" by (rule map_of_SomeD)
    with bound have "b < length (heap w)" by auto
    with Some show ?thesis by (simp add: Update_def deref_def)
  qed
  show ?thesis
    using res notin \<open>a < length (heap w)\<close> upd by (simp add: deref_def)
qed

text \<open>So do GetAll and GetByStatus: every pointer they return is to a new object.\<close>

lemma copy_tasks_result:
  "copy_tasks h out as =
     (out @ [length h ..< length h + length as], h @ map (\<lambda>a. h ! a) as)"
  if "\<forall>a \<in> set as. a < length h"
  using that
proof (induction as arbitrary: h out)
  case Nil
  then show ?case by simp
next
  case (Cons a as)
  from Cons.prems have a: "a < length h" and rest: "\<forall>b \<in> set as. b < length (h @ [h ! a])"
    by auto
  have same: "map (\<lambda>b. (h @ [h ! a]) ! b) as = map (\<lambda>b. h ! b) as"
    using Cons.prems by (auto simp: nth_append)
  have "[length h ..< length h + Suc (length as)] =
          length h # [Suc (length h) ..< length h + Suc (length as)]"
    by (rule upt_conv_Cons) simp
  then show ?case
    using Cons.IH [OF rest, of "out @ [length h]"] same by (simp add: alloc_def del: upt_Suc)
qed

lemma GetAll_returns_fresh_copies:
  assumes "store_wf w"
  shows "fst (GetAll w) = [length (heap w) ..< length (heap w) + length (tasks (taskStore w))]"
    and "heap (snd (GetAll w)) = heap w @ map (\<lambda>a. heap w ! a) (map snd (tasks (taskStore w)))"
    and "\<forall>p \<in> set (fst (GetAll w)). p \<notin> snd ` set (tasks (taskStore (snd (GetAll w))))"
proof -
  have bound: "\<forall>a \<in> set (map snd (tasks (taskStore w))). a < length (heap w)"
    using assms by (auto simp: store_wf_alt)
  note res = copy_tasks_result [OF bound, of "[]"]
  show 1: "fst (GetAll w) = [length (heap w) ..< length (heap w) + length (tasks (taskStore w))]"
    and "heap (snd (GetAll w)) = heap w @ map (\<lambda>a. heap w ! a) (map snd (tasks (taskStore w)))"
    using res by (simp_all add: GetAll_def)
  have "taskStore (snd (GetAll w)) = taskStore w" by (rule GetAll_store)
  with bound 1 show "\<forall>p \<in> set (fst (GetAll w)). p \<notin> snd ` set (tasks (taskStore (snd (GetAll w))))"
    by auto
qed

lemma GetByStatus_returns_fresh_copies:
  assumes "store_wf w"
  shows "\<forall>p \<in> set (fst (GetByStatus w d)).
           length (heap w) \<le> p \<and> p \<notin> snd ` set (tasks (taskStore (snd (GetByStatus w d))))"
proof -
  let ?as = "filter (\<lambda>task. Done (heap w ! task) = d) (map snd (tasks (taskStore w)))"
  have all: "\<forall>a \<in> set (map snd (tasks (taskStore w))). a < length (heap w)"
    using assms by (auto simp: store_wf_alt)
  then have bound: "\<forall>a \<in> set ?as. a < length (heap w)" by auto
  have 1: "fst (GetByStatus w d) = [length (heap w) ..< length (heap w) + length ?as]"
    using copy_tasks_result [OF bound, of "[]"] by (simp add: GetByStatus_def)
  have "taskStore (snd (GetByStatus w d)) = taskStore w" by (rule GetByStatus_store)
  with all 1 show ?thesis by auto
qed

subsection \<open>The counter as a 64-bit int\<close>

lemma wrap_int_id: "MinInt \<le> x \<Longrightarrow> x \<le> MaxInt \<Longrightarrow> wrap_int x = x"
  by (simp add: wrap_int_def MinInt_def MaxInt_def)

lemma wrap_int_wrap_add: "wrap_int (wrap_int x + y) = wrap_int (x + y)"
proof -
  have "((x + 2 ^ 63) mod 2 ^ 64 + y) mod 2 ^ 64 = (x + 2 ^ 63 + y) mod (2 ^ 64 :: int)"
    by (rule mod_add_left_eq)
  then show ?thesis by (simp add: wrap_int_def algebra_simps)
qed

lemma wrap_int_idem: "wrap_int (wrap_int x) = wrap_int x"
  using wrap_int_wrap_add [of x 0] by simp

lemma wrap_int_values:
  "wrap_int 1 = 1" "wrap_int 9223372036854775807 = 9223372036854775807"
  "wrap_int 9223372036854775808 = - 9223372036854775808"
  "wrap_int 18446744073709551617 = 1"
  by (simp_all add: wrap_int_def)

lemma Create_wrap_result:
  "Create_wrap w title =
     (length (heap w),
      \<lparr>heap = heap w @ [\<lparr>ID = nextID (taskStore w), Title = title, Done = False\<rparr>],
       taskStore = \<lparr>tasks = AList.update (nextID (taskStore w)) (length (heap w)) (tasks (taskStore w)),
                    nextID = wrap_int (nextID (taskStore w) + 1)\<rparr>\<rparr>)"
  by (simp add: Create_wrap_def alloc_def Let_def)

text \<open>Below the largest int the two models of Create are one function.\<close>

lemma Create_wrap_eq:
  assumes "MinInt \<le> nextID (taskStore w) + 1" "nextID (taskStore w) < MaxInt"
  shows "Create_wrap w title = Create w title"
  using assms by (simp add: Create_wrap_result Create_result wrap_int_id)

lemma store_step_wrap_ids:
  "fst (store_step_wrap w op) = (if is_create op then [nextID (taskStore w)] else [])"
  by (cases op) (simp_all add: Create_wrap_result)

lemma store_step_wrap_nextID:
  "nextID (taskStore (snd (store_step_wrap w op))) =
     (if is_create op then wrap_int (nextID (taskStore w) + 1) else nextID (taskStore w))"
  by (cases op)
     (simp_all add: Create_wrap_result GetByID_store GetAll_store GetByStatus_store Update_store
        Delete_nextID)

lemma store_run_wrap_no_create:
  "filter is_create ops = [] \<Longrightarrow> fst (store_run_wrap w ops) = []"
proof (induction ops arbitrary: w)
  case Nil
  then show ?case by simp
next
  case (Cons op ops)
  then have "\<not> is_create op" "filter is_create ops = []" by (auto split: if_splits)
  with Cons.IH [of "snd (store_step_wrap w op)"] show ?case
    by (simp add: split_beta store_step_wrap_ids)
qed

lemma store_run_wrap_ids:
  assumes "MinInt \<le> nextID (taskStore w)"
    and "nextID (taskStore w) + int (length (filter is_create ops)) \<le> MaxInt + 1"
  shows "fst (store_run_wrap w ops) =
           [nextID (taskStore w) ..
            nextID (taskStore w) + int (length (filter is_create ops)) - 1]"
  using assms
proof (induction ops arbitrary: w)
  case Nil
  then show ?case by simp
next
  case (Cons op ops)
  let ?w = "snd (store_step_wrap w op)" and ?c = "nextID (taskStore w)"
  show ?case
  proof (cases "is_create op")
    case False
    then have "nextID (taskStore ?w) = ?c" by (simp add: store_step_wrap_nextID)
    with False Cons.IH [of ?w] Cons.prems show ?thesis
      by (simp add: split_beta store_step_wrap_ids)
  next
    case True
    show ?thesis
    proof (cases "filter is_create ops = []")
      case True
      with \<open>is_create op\<close> show ?thesis
        by (simp add: split_beta store_step_wrap_ids store_run_wrap_no_create)
    next
      case False
      then have "1 \<le> int (length (filter is_create ops))"
        by (cases "filter is_create ops") simp_all
      with True Cons.prems(2) have below: "?c < MaxInt" by simp
      with Cons.prems(1) have nxt: "nextID (taskStore ?w) = ?c + 1"
        using True by (simp add: store_step_wrap_nextID wrap_int_id)
      have "fst (store_run_wrap ?w ops) =
              [?c + 1 .. ?c + 1 + int (length (filter is_create ops)) - 1]"
        using Cons.IH [of ?w] Cons.prems True nxt by simp
      with True show ?thesis
        by (simp add: split_beta store_step_wrap_ids upt_rec upto_rec1 [of ?c] algebra_simps)
    qed
  qed
qed

lemma replicate_Create_wrap_ids:
  assumes "wrap_int (nextID (taskStore w)) = nextID (taskStore w)"
  shows "fst (store_run_wrap w (replicate n (OpCreate title))) =
           map (\<lambda>k. wrap_int (nextID (taskStore w) + int k)) [0 ..< n]"
  using assms
proof (induction n arbitrary: w)
  case 0
  then show ?case by simp
next
  case (Suc n)
  let ?w = "snd (Create_wrap w title)" and ?c = "nextID (taskStore w)"
  have nxt: "nextID (taskStore ?w) = wrap_int (?c + 1)" by (simp add: Create_wrap_result)
  then have "wrap_int (nextID (taskStore ?w)) = nextID (taskStore ?w)"
    by (simp add: wrap_int_idem)
  from Suc.IH [OF this]
  have rest: "fst (store_run_wrap ?w (replicate n (OpCreate title))) =
                map (\<lambda>k. wrap_int (?c + 1 + int k)) [0 ..< n]"
    by (simp add: nxt wrap_int_wrap_add)
  have "[0 ..< Suc n] = 0 # map Suc [0 ..< n]"
    by (simp add: upt_conv_Cons map_Suc_upt del: upt_Suc)
  then show ?case
    using rest Suc.prems
    by (simp add: split_beta Create_wrap_result comp_def algebra_simps del: upt_Suc)
qed

lemma created_ids_wrap_replicate:
  "created_ids_wrap NewWorld (replicate n (OpCreate title)) =
     map (\<lambda>k. wrap_int (1 + int k)) [0 ..< n]"
proof -
  have "wrap_int (nextID (taskStore NewWorld)) = nextID (taskStore NewWorld)"
    by (simp add: NewWorld_def NewTaskStore_def wrap_int_values)
  from replicate_Create_wrap_ids [OF this, of n title] show ?thesis
    by (simp add: created_ids_wrap_def NewWorld_def NewTaskStore_def)
qed

text \<open>
  Claim C2, as amended. On a 64-bit target, whatever operations are run on a new store,
  as long as they hold at most \<open>2^63 - 1\<close> calls of Create, the IDs that these calls hand
  back are 1, 2, 3, ... in the order of the calls: strictly increasing from 1 and never
  repeated, whether or not tasks were deleted in between.
\<close>

theorem Create_ids_increase_up_to_MaxInt:
  assumes "int (length (filter is_create ops)) \<le> MaxInt"
  shows "created_ids_wrap NewWorld ops = [1 .. int (length (filter is_create ops))] \<and>
         sorted_wrt (<) (created_ids_wrap NewWorld ops) \<and>
         distinct (created_ids_wrap NewWorld ops)"
proof -
  have "MinInt \<le> nextID (taskStore NewWorld)"
    by (simp add: NewWorld_def NewTaskStore_def MinInt_def)
  moreover have "nextID (taskStore NewWorld) + int (length (filter is_create ops)) \<le> MaxInt + 1"
    using assms by (simp add: NewWorld_def NewTaskStore_def)
  ultimately have "created_ids_wrap NewWorld ops = [1 .. int (length (filter is_create ops))]"
    using store_run_wrap_ids [of NewWorld ops]
    by (simp add: created_ids_wrap_def NewWorld_def NewTaskStore_def)
  then show ?thesis by (simp add: strict_sorted_iff)
qed

theorem Create_ids_increase_up_to_MaxInt_witness:
  "int (length (filter is_create [OpCreate ''a'', OpCreate ''b'', OpDelete 1, OpCreate ''c'']))
     \<le> MaxInt \<and>
   created_ids_wrap NewWorld [OpCreate ''a'', OpCreate ''b'', OpDelete 1, OpCreate ''c''] =
     [1, 2, 3]"
proof -
  have h: "int (length (filter is_create
             [OpCreate ''a'', OpCreate ''b'', OpDelete 1, OpCreate ''c''])) \<le> MaxInt"
    by (simp add: MaxInt_def)
  have "[1 .. 3] = [1, 2, 3 :: int]" by (simp add: upto_rec1)
  with Create_ids_increase_up_to_MaxInt [OF h] h show ?thesis by simp
qed

lemma ids_not_increasing:
  "\<not> sorted_wrt (<) (created_ids_wrap NewWorld (replicate 9223372036854775808 (OpCreate [])))"
proof
  let ?ids = "created_ids_wrap NewWorld (replicate 9223372036854775808 (OpCreate []))"
  have ids: "?ids = map (\<lambda>k. wrap_int (1 + int k)) [0 ..< 9223372036854775808]"
    by (rule created_ids_wrap_replicate)
  have i: "?ids ! 9223372036854775806 = 9223372036854775807"
    unfolding ids by (subst nth_map) (simp_all add: wrap_int_values)
  have j: "?ids ! 9223372036854775807 = - 9223372036854775808"
    unfolding ids by (subst nth_map) (simp_all add: wrap_int_values)
  have len: "9223372036854775807 < length ?ids"
    unfolding ids by simp
  assume "sorted_wrt (<) ?ids"
  moreover have "(9223372036854775806 :: nat) < 9223372036854775807" by simp
  ultimately have "?ids ! 9223372036854775806 < ?ids ! 9223372036854775807"
    using len by (rule sorted_wrt_nth_less)
  with i j show False by simp
qed

lemma ids_repeat:
  "\<not> distinct (created_ids_wrap NewWorld (replicate 18446744073709551617 (OpCreate [])))"
proof
  let ?ids = "created_ids_wrap NewWorld (replicate 18446744073709551617 (OpCreate []))"
  have ids: "?ids = map (\<lambda>k. wrap_int (1 + int k)) [0 ..< 18446744073709551617]"
    by (rule created_ids_wrap_replicate)
  have i: "?ids ! 0 = 1"
    unfolding ids by (subst nth_map) (simp_all add: wrap_int_values)
  have j: "?ids ! 18446744073709551616 = 1"
    unfolding ids by (subst nth_map) (simp_all add: wrap_int_values)
  have len: "0 < length ?ids" "18446744073709551616 < length ?ids"
    unfolding ids by simp_all
  assume "distinct ?ids"
  moreover have "(0 :: nat) \<noteq> 18446744073709551616" by simp
  ultimately have "?ids ! 0 \<noteq> ?ids ! 18446744073709551616"
    using len by (simp only: distinct_conv_nth) blast
  with i j show False by simp
qed

text \<open>
  Claim C2 as stated fails for longer runs. The \<open>2^63\<close>-th Create of a store returns
  \<open>-2^63\<close> after \<open>2^63 - 1\<close>, so the IDs do not increase throughout, and Create number
  \<open>2^64 + 1\<close> returns 1 again.
\<close>

theorem Create_ids_wrap_around:
  "\<not> sorted_wrt (<) (created_ids_wrap NewWorld (replicate (2 ^ 63) (OpCreate []))) \<and>
   \<not> distinct (created_ids_wrap NewWorld (replicate (2 ^ 64 + 1) (OpCreate [])))"
  using ids_not_increasing ids_repeat by simp

section \<open>Properties of the rate limiter\<close>

subsection \<open>The two locked regions and the sweep\<close>

lemma getVisitor_absent:
  assumes "visitors rl ip = None"
  shows "getVisitor rl ip seenAt refillAt =
           (length (cells rl),
            rl\<lparr>cells := cells rl @ [\<lparr>tokens = rate rl, lastSeen = seenAt, lastRefill = refillAt\<rparr>],
               visitors := (visitors rl)(ip \<mapsto> length (cells rl))\<rparr>)"
  using assms by (simp add: getVisitor_def Let_def)

lemma getVisitor_present:
  assumes "visitors rl ip = Some v"
  shows "getVisitor rl ip seenAt refillAt = (v, rl)"
  using assms by (simp add: getVisitor_def)

lemma allow_section_frame:
  "visitors (snd (allow_section rl v now)) = visitors rl"
  "rate (snd (allow_section rl v now)) = rate rl"
  "cleanup (snd (allow_section rl v now)) = cleanup rl"
  "length (cells (snd (allow_section rl v now))) = length (cells rl)"
  "u \<noteq> v \<Longrightarrow> cells (snd (allow_section rl v now)) ! u = cells rl ! u"
  by (simp_all add: allow_section_def Let_def)

text \<open>The locked region inside the window of the object: no refill, a gated decrement.\<close>

lemma allow_section_in_window:
  assumes "v < length (cells rl)" "now - lastRefill (cells rl ! v) < Minute"
  shows "fst (allow_section rl v now) = (0 < tokens (cells rl ! v))"
    and "cells (snd (allow_section rl v now)) ! v =
           (cells rl ! v)\<lparr>lastSeen := now,
              tokens := (if 0 < tokens (cells rl ! v) then tokens (cells rl ! v) - 1
                         else tokens (cells rl ! v))\<rparr>"
  using assms by (simp_all add: allow_section_def Let_def)

text \<open>The locked region once the window of the object is a minute old: refill, then the
  gated decrement.\<close>

lemma allow_section_refill:
  assumes "v < length (cells rl)" "Minute \<le> now - lastRefill (cells rl ! v)"
  shows "fst (allow_section rl v now) = (0 < rate rl)"
    and "cells (snd (allow_section rl v now)) ! v =
           \<lparr>tokens = (if 0 < rate rl then rate rl - 1 else rate rl),
            lastSeen = now, lastRefill = now\<rparr>"
  using assms by (cases "cells rl ! v"; simp add: allow_section_def Let_def)+

lemma sweep_frame:
  "cells (sweep rl seen) = cells rl" "rate (sweep rl seen) = rate rl"
  "cleanup (sweep rl seen) = cleanup rl"
  by (simp_all add: sweep_def)

lemma sweep_visitors:
  "visitors (sweep rl seen) ip = Some v \<Longrightarrow> visitors rl ip = Some v"
  by (simp add: sweep_def split: option.splits if_splits)

lemma rl_step_Enter_held:
  "held st (ip, n) = Some v \<Longrightarrow> rl_step st (Enter ip n seenAt refillAt) = ([], st)"
  by simp

lemma rl_step_Enter_new:
  assumes "held st (ip, n) = None" "visitors (lim st) ip = None"
  shows "rl_step st (Enter ip n seenAt refillAt) =
           ([], \<lparr>lim = (lim st)\<lparr>cells := cells (lim st) @
                          [\<lparr>tokens = rate (lim st), lastSeen = seenAt, lastRefill = refillAt\<rparr>],
                        visitors := (visitors (lim st))(ip \<mapsto> length (cells (lim st)))\<rparr>,
                 held = (held st)((ip, n) \<mapsto> length (cells (lim st)))\<rparr>)"
  using assms by (simp add: getVisitor_absent)

lemma rl_step_Enter_old:
  assumes "held st (ip, n) = None" "visitors (lim st) ip = Some v"
  shows "rl_step st (Enter ip n seenAt refillAt) =
           ([], \<lparr>lim = lim st, held = (held st)((ip, n) \<mapsto> v)\<rparr>)"
  using assms by (simp add: getVisitor_present)

lemma rl_step_Section_none:
  "held st (ip, n) = None \<Longrightarrow> rl_step st (Section ip n now) = ([], st)"
  by simp

lemma rl_step_Section_held:
  assumes "held st (ip, n) = Some v"
  shows "rl_step st (Section ip n now) =
           ([(ip, fst (allow_section (lim st) v now))],
            \<lparr>lim = snd (allow_section (lim st) v now), held = (held st)((ip, n) := None)\<rparr>)"
  using assms by (simp add: split_beta)

subsection \<open>Pointers stay inside the heap\<close>

lemma wf_step:
  assumes "limiter_wf (lim st)" "held_wf st"
  shows "limiter_wf (lim (snd (rl_step st e))) \<and> held_wf (snd (rl_step st e))"
proof (cases e)
  case (Enter ip n seenAt refillAt)
  show ?thesis
  proof (cases "held st (ip, n)")
    case (Some v)
    with Enter assms show ?thesis by simp
  next
    case None
    show ?thesis
    proof (cases "visitors (lim st) ip")
      case vis: None
      have "limiter_wf ((lim st)\<lparr>cells := cells (lim st) @
                          [\<lparr>tokens = rate (lim st), lastSeen = seenAt, lastRefill = refillAt\<rparr>],
                        visitors := (visitors (lim st))(ip \<mapsto> length (cells (lim st)))\<rparr>)"
        using assms(1) unfolding limiter_wf_def
        by (auto simp: less_Suc_eq split: if_splits)
      moreover have "held_wf \<lparr>lim = (lim st)\<lparr>cells := cells (lim st) @
                          [\<lparr>tokens = rate (lim st), lastSeen = seenAt, lastRefill = refillAt\<rparr>],
                        visitors := (visitors (lim st))(ip \<mapsto> length (cells (lim st)))\<rparr>,
                 held = (held st)((ip, n) \<mapsto> length (cells (lim st)))\<rparr>"
        using assms(2) unfolding held_wf_def by (auto simp: less_Suc_eq split: if_splits)
      ultimately show ?thesis
        unfolding Enter rl_step_Enter_new [OF None vis] by simp
    next
      case (Some v)
      with assms(1) have "v < length (cells (lim st))" by (auto simp: limiter_wf_def)
      with assms have "held_wf \<lparr>lim = lim st, held = (held st)((ip, n) \<mapsto> v)\<rparr>"
        by (auto simp: held_wf_def)
      with assms(1) show ?thesis
        unfolding Enter rl_step_Enter_old [OF None Some] by simp
    qed
  qed
next
  case (Section ip n now)
  show ?thesis
  proof (cases "held st (ip, n)")
    case None
    with Section assms show ?thesis by simp
  next
    case (Some v)
    have "limiter_wf (snd (allow_section (lim st) v now))"
      using assms(1) by (simp add: limiter_wf_def allow_section_frame)
    moreover have "held_wf \<lparr>lim = snd (allow_section (lim st) v now),
                            held = (held st)((ip, n) := None)\<rparr>"
      using assms(2) by (auto simp: held_wf_def allow_section_frame split: if_splits)
    ultimately show ?thesis
      unfolding Section rl_step_Section_held [OF Some] by simp
  qed
next
  case (Tick seen)
  have "limiter_wf (sweep (lim st) seen)"
    unfolding limiter_wf_def
  proof (intro conjI allI impI)
    fix ip v assume "visitors (sweep (lim st) seen) ip = Some v"
    then have "visitors (lim st) ip = Some v" by (rule sweep_visitors)
    with assms(1) show "v < length (cells (sweep (lim st) seen))"
      by (simp add: limiter_wf_def sweep_frame)
  next
    fix ip ip' v
    assume "visitors (sweep (lim st) seen) ip = Some v \<and>
            visitors (sweep (lim st) seen) ip' = Some v"
    then have "visitors (lim st) ip = Some v" "visitors (lim st) ip' = Some v"
      by (auto dest: sweep_visitors)
    with assms(1) show "ip = ip'" unfolding limiter_wf_def by blast
  qed
  moreover have "held_wf (st\<lparr>lim := sweep (lim st) seen\<rparr>)"
    using assms(2) by (simp add: held_wf_def sweep_frame)
  ultimately show ?thesis using Tick by simp
qed

lemma wf_run:
  assumes "limiter_wf (lim st)" "held_wf st"
  shows "limiter_wf (lim (snd (rl_run st es))) \<and> held_wf (snd (rl_run st es))"
  using assms
proof (induction es arbitrary: st)
  case Nil
  then show ?case by simp
next
  case (Cons e es)
  from wf_step [OF Cons.prems, of e] Cons.IH [of "snd (rl_step st e)"]
  show ?case by (simp add: split_beta)
qed

lemma wf_start: "limiter_wf rl \<Longrightarrow> limiter_wf (lim (start rl)) \<and> held_wf (start rl)"
  by (simp add: start_def held_wf_def)

lemma limiter_wf_New: "limiter_wf (NewRateLimiter r)"
  by (simp add: limiter_wf_def NewRateLimiter_def)

subsection \<open>Capacity, rate and interval never change\<close>

lemma rl_step_rate: "rate (lim (snd (rl_step st e))) = rate (lim st)"
  by (cases e)
     (simp_all add: getVisitor_def Let_def split_beta allow_section_frame sweep_frame
        split: option.splits)

lemma rl_step_cleanup: "cleanup (lim (snd (rl_step st e))) = cleanup (lim st)"
  by (cases e)
     (simp_all add: getVisitor_def Let_def split_beta allow_section_frame sweep_frame
        split: option.splits)

lemma rl_run_rate: "rate (lim (snd (rl_run st es))) = rate (lim st)"
  by (induction es arbitrary: st) (simp_all add: split_beta rl_step_rate)

lemma rl_run_cleanup: "cleanup (lim (snd (rl_run st es))) = cleanup (lim st)"
  by (induction es arbitrary: st) (simp_all add: split_beta rl_step_cleanup)

subsection \<open>Tokens stay between zero and the capacity\<close>

lemma tokens_ok_New: "tokens_ok (NewRateLimiter r)"
  by (simp add: tokens_ok_def NewRateLimiter_def)

lemma tokens_ok_getVisitor:
  assumes "tokens_ok rl"
  shows "tokens_ok (snd (getVisitor rl ip seenAt refillAt))"
  using assms by (auto simp: tokens_ok_def getVisitor_def Let_def split: option.splits)

lemma tokens_ok_allow_section:
  assumes "tokens_ok rl"
  shows "tokens_ok (snd (allow_section rl v now))"
proof (cases "v < length (cells rl)")
  case False
  then have "length (cells rl) \<le> v" by simp
  then have "(cells rl)[v := y] = cells rl" for y by (rule list_update_beyond)
  with assms show ?thesis by (simp add: tokens_ok_def allow_section_def Let_def)
next
  case True
  then have "cells rl ! v \<in> set (cells rl)" by simp
  with assms have x: "tokens (cells rl ! v) \<le> rate rl"
    "0 \<le> rate rl \<longrightarrow> 0 \<le> tokens (cells rl ! v)"
    by (auto simp: tokens_ok_def)
  have sub: "set ((cells rl)[v := y]) \<subseteq> insert y (set (cells rl))" for y
    by (rule set_update_subset_insert)
  show ?thesis
    unfolding tokens_ok_def
  proof
    fix z assume z: "z \<in> set (cells (snd (allow_section rl v now)))"
    have r: "rate (snd (allow_section rl v now)) = rate rl" by (rule allow_section_frame)
    from z obtain y where y: "cells (snd (allow_section rl v now)) = (cells rl)[v := y]"
      "tokens y \<le> rate rl" "0 \<le> rate rl \<longrightarrow> 0 \<le> tokens y"
      using x by (auto simp: allow_section_def Let_def split: if_splits)
    from z y(1) sub [of y] have "z = y \<or> z \<in> set (cells rl)" by auto
    with y(2,3) assms r
    show "tokens z \<le> rate (snd (allow_section rl v now)) \<and>
          (0 \<le> rate (snd (allow_section rl v now)) \<longrightarrow> 0 \<le> tokens z)"
      by (auto simp: tokens_ok_def)
  qed
qed

lemma tokens_ok_sweep: "tokens_ok rl \<Longrightarrow> tokens_ok (sweep rl seen)"
  by (simp add: tokens_ok_def sweep_frame)

lemma tokens_ok_step:
  assumes "tokens_ok (lim st)"
  shows "tokens_ok (lim (snd (rl_step st e)))"
proof (cases e)
  case (Enter ip n seenAt refillAt)
  then show ?thesis
    using assms tokens_ok_getVisitor [OF assms, of ip seenAt refillAt]
    by (simp add: split_beta split: option.splits)
next
  case (Section ip n now)
  then show ?thesis
    using assms tokens_ok_allow_section [OF assms]
    by (simp add: split_beta split: option.splits)
next
  case (Tick seen)
  then show ?thesis using tokens_ok_sweep [OF assms] by simp
qed

lemma tokens_ok_run: "tokens_ok (lim st) \<Longrightarrow> tokens_ok (lim (snd (rl_run st es)))"
proof (induction es arbitrary: st)
  case Nil
  then show ?case by simp
next
  case (Cons e es)
  from Cons.IH [OF tokens_ok_step [OF Cons.prems, of e]]
  show ?case by (simp add: split_beta)
qed

subsection \<open>One identity inside its window\<close>

lemma tokens_left_cong:
  assumes "visitors rl' ip = visitors rl ip" "rate rl' = rate rl"
    and "\<And>u. visitors rl ip = Some u \<Longrightarrow> tokens (cells rl' ! u) = tokens (cells rl ! u)"
  shows "tokens_left rl' ip = tokens_left rl ip"
  using assms by (simp add: tokens_left_def split: option.splits)







subsection \<open>Ten calls to a window\<close>

text \<open>A call with nothing in between is \<open>allow\<close>.\<close>

lemma call_alone:
  assumes "held st (ip, n) = None"
  shows "rl_run st [Enter ip n seenAt refillAt, Section ip n now] =
           ([(ip, fst (allow (lim st) ip \<lparr>atSeen = seenAt, atRefill = refillAt, atNow = now\<rparr>))],
            \<lparr>lim = snd (allow (lim st) ip \<lparr>atSeen = seenAt, atRefill = refillAt, atNow = now\<rparr>),
             held = held st\<rparr>)"
proof -
  have "(held st)((ip, n) := None) = held st" using assms by (rule fun_upd_idem)
  with assms show ?thesis by (simp add: allow_def split_beta)
qed



lemma burst_run:
  "visitors (reached 10 burst) ''10.0.0.1:4000'' = Some 0"
  "cells (reached 10 burst) ! 0 = \<lparr>tokens = 0, lastSeen = 12, lastRefill = 0\<rparr>"
  "length (cells (reached 10 burst)) = 2"
  "rate (reached 10 burst) = 10"
  "answers ''10.0.0.1:4000'' (start (NewRateLimiter 10)) burst =
     [True, True, True, True, True, True, True, True, True, True, False]"
  by (simp_all add: reached_def after_run_def answers_def burst_def call_def start_def
      NewRateLimiter_def getVisitor_def allow_section_def sweep_def Minute_def Let_def)


subsection \<open>The invariant of the bucket\<close>

text \<open>
  Claim C7, as amended. A limiter made with a capacity \<open>r \<ge> 0\<close>, after any run of calls,
  overlapping or not, and sweeps: the capacity is still \<open>r\<close>; every visitor object, in the
  map or not, has between 0 and \<open>r\<close> tokens, and every entry of the map points to such an
  object. The bounds come about as the claim says: a visitor that \<open>getVisitor\<close> creates is
  entered in the map with exactly \<open>r\<close> tokens; a locked region of \<open>allow\<close> that finds the
  window a minute old sets the tokens to \<open>r\<close> before it takes one; and a token is taken
  only when one is there, and then exactly one.
\<close>

theorem tokens_between_zero_and_capacity:
  assumes "0 \<le> r"
  shows "rate (reached r es) = r \<and>
         (\<forall>x \<in> set (cells (reached r es)). 0 \<le> tokens x \<and> tokens x \<le> r) \<and>
         (\<forall>ip v. visitors (reached r es) ip = Some v \<longrightarrow>
            v < length (cells (reached r es)) \<and>
            0 \<le> tokens (cells (reached r es) ! v) \<and> tokens (cells (reached r es) ! v) \<le> r) \<and>
         (\<forall>ip seenAt refillAt. visitors (reached r es) ip = None \<longrightarrow>
            visitors (snd (getVisitor (reached r es) ip seenAt refillAt)) ip =
              Some (fst (getVisitor (reached r es) ip seenAt refillAt)) \<and>
            cells (snd (getVisitor (reached r es) ip seenAt refillAt)) !
              fst (getVisitor (reached r es) ip seenAt refillAt) =
              \<lparr>tokens = r, lastSeen = seenAt, lastRefill = refillAt\<rparr>) \<and>
         (\<forall>v now. v < length (cells (reached r es)) \<and>
                   Minute \<le> now - lastRefill (cells (reached r es) ! v) \<longrightarrow>
            fst (allow_section (reached r es) v now) = (0 < r) \<and>
            cells (snd (allow_section (reached r es) v now)) ! v =
              \<lparr>tokens = (if 0 < r then r - 1 else r), lastSeen = now, lastRefill = now\<rparr>) \<and>
         (\<forall>v now. v < length (cells (reached r es)) \<and>
                   now - lastRefill (cells (reached r es) ! v) < Minute \<longrightarrow>
            fst (allow_section (reached r es) v now) = (0 < tokens (cells (reached r es) ! v)) \<and>
            tokens (cells (snd (allow_section (reached r es) v now)) ! v) =
              (if 0 < tokens (cells (reached r es) ! v)
               then tokens (cells (reached r es) ! v) - 1
               else tokens (cells (reached r es) ! v)))"
proof -
  let ?rl = "reached r es"
  have rate: "rate ?rl = r"
    by (simp add: reached_def after_run_def rl_run_rate start_def NewRateLimiter_def)
  have "tokens_ok (lim (start (NewRateLimiter r)))"
    using tokens_ok_New by (simp add: start_def)
  then have "tokens_ok ?rl"
    unfolding reached_def after_run_def by (rule tokens_ok_run)
  with rate assms have objs: "\<forall>x \<in> set (cells ?rl). 0 \<le> tokens x \<and> tokens x \<le> r"
    by (auto simp: tokens_ok_def)
  have "limiter_wf ?rl"
    using wf_run [of "start (NewRateLimiter r)" es] wf_start [OF limiter_wf_New, of r]
    by (simp add: reached_def after_run_def)
  then have range: "\<forall>ip v. visitors ?rl ip = Some v \<longrightarrow> v < length (cells ?rl)"
    by (simp add: limiter_wf_def)
  have entries: "\<forall>ip v. visitors ?rl ip = Some v \<longrightarrow>
      v < length (cells ?rl) \<and> 0 \<le> tokens (cells ?rl ! v) \<and> tokens (cells ?rl ! v) \<le> r"
    using range objs by (auto simp: all_set_conv_all_nth)
  have create: "\<forall>ip seenAt refillAt. visitors ?rl ip = None \<longrightarrow>
      visitors (snd (getVisitor ?rl ip seenAt refillAt)) ip =
        Some (fst (getVisitor ?rl ip seenAt refillAt)) \<and>
      cells (snd (getVisitor ?rl ip seenAt refillAt)) ! fst (getVisitor ?rl ip seenAt refillAt) =
        \<lparr>tokens = r, lastSeen = seenAt, lastRefill = refillAt\<rparr>"
    using rate by (simp add: getVisitor_absent)
  have refill: "\<forall>v now. v < length (cells ?rl) \<and> Minute \<le> now - lastRefill (cells ?rl ! v) \<longrightarrow>
      fst (allow_section ?rl v now) = (0 < r) \<and>
      cells (snd (allow_section ?rl v now)) ! v =
        \<lparr>tokens = (if 0 < r then r - 1 else r), lastSeen = now, lastRefill = now\<rparr>"
    using allow_section_refill [of _ ?rl] rate by simp
  have gate: "\<forall>v now. v < length (cells ?rl) \<and> now - lastRefill (cells ?rl ! v) < Minute \<longrightarrow>
      fst (allow_section ?rl v now) = (0 < tokens (cells ?rl ! v)) \<and>
      tokens (cells (snd (allow_section ?rl v now)) ! v) =
        (if 0 < tokens (cells ?rl ! v) then tokens (cells ?rl ! v) - 1
         else tokens (cells ?rl ! v))"
    using allow_section_in_window [of _ ?rl] by simp
  from rate objs entries create refill gate show ?thesis by blast
qed

theorem tokens_between_zero_and_capacity_witness:
  "(0::int) \<le> 10 \<and>
   visitors (reached 10 burst) ''10.0.0.1:4000'' = Some 0 \<and>
   cells (reached 10 burst) ! 0 = \<lparr>tokens = 0, lastSeen = 12, lastRefill = 0\<rparr> \<and>
   0 \<le> tokens (cells (reached 10 burst) ! 0) \<and> tokens (cells (reached 10 burst) ! 0) \<le> 10 \<and>
   fst (allow_section (reached 10 burst) 0 (Minute + 5)) = True \<and>
   cells (snd (allow_section (reached 10 burst) 0 (Minute + 5))) ! 0 =
     \<lparr>tokens = 9, lastSeen = Minute + 5, lastRefill = Minute + 5\<rparr> \<and>
   fst (allow_section (reached 10 burst) 0 13) = False"
proof -
  have h: "(0::int) \<le> 10" by simp
  note main = tokens_between_zero_and_capacity [OF h, of burst]
  have bounds: "0 \<le> tokens (cells (reached 10 burst) ! 0) \<and>
                tokens (cells (reached 10 burst) ! 0) \<le> 10"
    using main burst_run(1) by blast
  have v: "0 < length (cells (reached 10 burst))" by (simp add: burst_run)
  have old: "Minute \<le> Minute + 5 - lastRefill (cells (reached 10 burst) ! 0)"
    by (simp add: burst_run)
  have new: "13 - lastRefill (cells (reached 10 burst) ! 0) < Minute"
    by (simp add: burst_run Minute_def)
  from main v old
  have refilled: "fst (allow_section (reached 10 burst) 0 (Minute + 5)) = (0 < (10 :: int)) \<and>
     cells (snd (allow_section (reached 10 burst) 0 (Minute + 5))) ! 0 =
       \<lparr>tokens = (if 0 < (10 :: int) then 10 - 1 else 10), lastSeen = Minute + 5,
        lastRefill = Minute + 5\<rparr>"
    by blast
  from main v new
  have denied: "fst (allow_section (reached 10 burst) 0 13) =
                  (0 < tokens (cells (reached 10 burst) ! 0))"
    by blast
  from h bounds refilled denied burst_run(1,2) show ?thesis by simp
qed

text \<open>
  Claim C7 as stated fails for a limiter made with a negative capacity: NewRateLimiter takes
  any int, and after one call the visitor of capacity \<open>-3\<close> holds \<open>-3\<close> tokens.
\<close>

theorem negative_capacity_negative_tokens:
  "visitors (reached (- 3) (call ''10.0.0.1:4000'' 1 0)) ''10.0.0.1:4000'' = Some 0 \<and>
   tokens (cells (reached (- 3) (call ''10.0.0.1:4000'' 1 0)) ! 0) = - 3 \<and>
   \<not> 0 \<le> tokens (cells (reached (- 3) (call ''10.0.0.1:4000'' 1 0)) ! 0)"
  by (simp add: reached_def after_run_def call_def start_def NewRateLimiter_def getVisitor_def
      allow_section_def Minute_def Let_def)

section \<open>Properties of the handlers and the pipeline\<close>

subsection \<open>Decimal numerals\<close>

lemma digit_char:
  assumes "d < 10"
  shows "''0123456789'' ! d \<in> set ''0123456789''"
    and "of_char (''0123456789'' ! d) - 48 = d"
    and "''0123456789'' ! d \<noteq> CHR ''-''"
proof -
  from assms have "d \<in> {0, 1, 2, 3, 4, 5, 6, 7, 8, 9}" by auto
  then show "''0123456789'' ! d \<in> set ''0123456789''"
    and "of_char (''0123456789'' ! d) - 48 = d"
    and "''0123456789'' ! d \<noteq> CHR ''-''"
    by auto
qed

lemma digits_value_snoc:
  "digits_value acc (xs @ [c]) =
     (case digits_value acc xs of
        None \<Rightarrow> None
      | Some v \<Rightarrow> if c \<in> set ''0123456789'' then Some (10 * v + (of_char c - 48)) else None)"
  by (induction xs arbitrary: acc) (simp_all del: set_simps)

lemma digits_value_show_nat: "digits_value 0 (show_nat n) = Some n"
proof (induction n rule: show_nat.induct)
  case (1 n)
  show ?case
  proof (cases "n < 10")
    case True
    then show ?thesis
      using digit_char(1,2) [of n]
      by (subst show_nat.simps) (simp del: set_simps)
  next
    case False
    have m: "n mod 10 < 10" by simp
    from False 1 have IH: "digits_value 0 (show_nat (n div 10)) = Some (n div 10)" by simp
    show ?thesis
      using False IH digit_char(1,2) [OF m]
      by (subst show_nat.simps) (simp add: digits_value_snoc del: set_simps)
  qed
qed

lemma show_nat_inj:
  assumes "show_nat m = show_nat n"
  shows "m = n"
proof -
  have "Some m = digits_value 0 (show_nat m)" by (simp only: digits_value_show_nat)
  also have "\<dots> = digits_value 0 (show_nat n)" by (simp only: assms)
  also have "\<dots> = Some n" by (simp only: digits_value_show_nat)
  finally show ?thesis by simp
qed

lemma show_nat_hd: "\<exists>c cs. show_nat n = c # cs \<and> c \<noteq> CHR ''-''"
proof (induction n rule: show_nat.induct)
  case (1 n)
  show ?case
  proof (cases "n < 10")
    case True
    then show ?thesis
      using digit_char(3) [of n] by (subst show_nat.simps) simp
  next
    case False
    with 1 obtain c cs where "show_nat (n div 10) = c # cs" "c \<noteq> CHR ''-''" by auto
    with False show ?thesis by (subst show_nat.simps) simp
  qed
qed

lemma show_int_inj: "show_int i = show_int j \<Longrightarrow> i = j"
proof -
  assume eq: "show_int i = show_int j"
  obtain c cs where i: "show_nat (nat i) = c # cs" "c \<noteq> CHR ''-''"
    using show_nat_hd [of "nat i"] by auto
  obtain d ds where j: "show_nat (nat j) = d # ds" "d \<noteq> CHR ''-''"
    using show_nat_hd [of "nat j"] by auto
  show "i = j"
  proof (cases "i < 0")
    case True
    show ?thesis
    proof (cases "j < 0")
      case True
      with \<open>i < 0\<close> eq have "show_nat (nat (- i)) = show_nat (nat (- j))"
        by (simp add: show_int_def)
      then have "nat (- i) = nat (- j)" by (rule show_nat_inj)
      with True \<open>i < 0\<close> show ?thesis by simp
    next
      case False
      with \<open>i < 0\<close> eq j show ?thesis by (simp add: show_int_def)
    qed
  next
    case False
    show ?thesis
    proof (cases "j < 0")
      case True
      with False eq i show ?thesis by (auto simp: show_int_def)
    next
      case jn: False
      with False eq have "show_nat (nat i) = show_nat (nat j)" by (simp add: show_int_def)
      then have "nat i = nat j" by (rule show_nat_inj)
      with False jn show ?thesis by simp
    qed
  qed
qed

subsection \<open>Chain\<close>

lemma chain_loop_foldr:
  "n \<le> length ms \<Longrightarrow> chain_loop ms n final = foldr (\<lambda>m h. m h) (take n ms) final"
proof (induction n arbitrary: final)
  case 0
  then show ?case by simp
next
  case (Suc n)
  then have "n < length ms" by simp
  then have "take (Suc n) ms = take n ms @ [ms ! n]" by (rule take_Suc_conv_app_nth)
  with Suc show ?case by simp
qed

lemma Chain_foldr: "Chain ms final = foldr (\<lambda>m h. m h) ms final"
  by (simp add: Chain_def chain_loop_foldr)

lemma main_handler_eq:
  "main_handler = Logger (RequestID (Limit (APIKeyAuth validAPIKeys (ServeHTTP main_router))))"
  by (simp add: main_handler_def Chain_foldr)

lemma main_router_routes:
  "main_router ''GET'' = Some [''/v1/tasks'' \<mapsto> GetTask, ''/health'' \<mapsto> health]"
  "main_router ''POST'' = Some [''/v1/tasks'' \<mapsto> CreateTask]"
  "main_router ''PATCH'' = Some [''/v1/tasks'' \<mapsto> UpdateTask]"
  "main_router ''DELETE'' = Some [''/v1/tasks'' \<mapsto> DeleteTask]"
  "m \<notin> {''GET'', ''POST'', ''PATCH'', ''DELETE''} \<Longrightarrow> main_router m = None"
  by (simp_all add: main_router_def NewRouter_def GET_def POST_def PATCH_def DELETE_def
      Handle_def)

lemma keeps_health: "keeps_request_id health"
  by (simp add: keeps_request_id_def health_def)

lemma keeps_NotFound: "keeps_request_id NotFound"
  by (simp add: keeps_request_id_def NotFound_def)

lemma keeps_GetAllTasks: "keeps_request_id GetAllTasks"
  by (simp add: keeps_request_id_def GetAllTasks_def respondJSON_def Let_def split_beta
      split: option.splits)

lemma keeps_GetTask: "keeps_request_id GetTask"
  unfolding keeps_request_id_def
proof (intro allI)
  fix w r s
  show "\<exists>calls. fst (GetTask w r s) = w @ calls \<and>
          (\<forall>v. SetHeader ''X-Request-ID'' v \<notin> set calls) \<and>
          requestIDCounter (snd (GetTask w r s)) = requestIDCounter s"
  proof (cases "queryId r = []")
    case True
    then show ?thesis
      using keeps_GetAllTasks by (simp add: GetTask_def keeps_request_id_def)
  next
    case False
    then show ?thesis
      by (simp add: GetTask_def respondJSON_def Let_def split_beta
          split: option.splits sum.splits prod.splits)
  qed
qed

lemma keeps_CreateTask: "keeps_request_id CreateTask"
  by (simp add: keeps_request_id_def CreateTask_def respondJSON_def Let_def split_beta
      split: option.splits)

lemma keeps_UpdateTask: "keeps_request_id UpdateTask"
  by (simp add: keeps_request_id_def UpdateTask_def respondJSON_def Let_def split_beta
      split: option.splits)

lemma keeps_DeleteTask: "keeps_request_id DeleteTask"
  by (simp add: keeps_request_id_def DeleteTask_def respondJSON_def Let_def split_beta
      split: option.splits)

lemma keeps_ServeHTTP:
  assumes "\<And>m hs p h. routes m = Some hs \<Longrightarrow> hs p = Some h \<Longrightarrow> keeps_request_id h"
  shows "keeps_request_id (ServeHTTP routes)"
  unfolding keeps_request_id_def
proof (intro allI)
  fix w :: ResponseWriter and r :: Request and s :: Sys
  let ?p = "takeWhile (\<lambda>c. c \<noteq> CHR ''?'') (Path r)"
  show "\<exists>calls. fst (ServeHTTP routes w r s) = w @ calls \<and>
          (\<forall>v. SetHeader ''X-Request-ID'' v \<notin> set calls) \<and>
          requestIDCounter (snd (ServeHTTP routes w r s)) = requestIDCounter s"
  proof (cases "routes (Method r)")
    case None
    then show ?thesis
      using keeps_NotFound by (simp add: ServeHTTP_def keeps_request_id_def)
  next
    case (Some hs)
    show ?thesis
    proof (cases "hs ?p")
      case None
      with Some show ?thesis
        using keeps_NotFound by (simp add: ServeHTTP_def keeps_request_id_def)
    next
      case (Some h)
      with \<open>routes (Method r) = Some hs\<close> have "keeps_request_id h" by (rule assms)
      with Some \<open>routes (Method r) = Some hs\<close> show ?thesis
        by (simp add: ServeHTTP_def keeps_request_id_def)
    qed
  qed
qed

lemma main_router_handlers:
  assumes "main_router m = Some hs" "hs p = Some h"
  shows "h = GetTask \<or> h = CreateTask \<or> h = UpdateTask \<or> h = DeleteTask \<or> h = health"
  using assms
  by (auto simp: main_router_def NewRouter_def GET_def POST_def PATCH_def DELETE_def
      Handle_def split: if_splits)

lemma keeps_main_router: "keeps_request_id (ServeHTTP main_router)"
proof (rule keeps_ServeHTTP)
  fix m hs p h
  assume "main_router m = Some hs" "hs p = Some h"
  then have "h = GetTask \<or> h = CreateTask \<or> h = UpdateTask \<or> h = DeleteTask \<or> h = health"
    by (rule main_router_handlers)
  then show "keeps_request_id h"
    using keeps_GetTask keeps_CreateTask keeps_UpdateTask keeps_DeleteTask keeps_health
    by auto
qed

lemma keeps_APIKeyAuth:
  assumes "keeps_request_id next"
  shows "keeps_request_id (APIKeyAuth validKeys next)"
  using assms by (simp add: keeps_request_id_def APIKeyAuth_def Let_def)

lemma keeps_Limit:
  assumes "keeps_request_id next"
  shows "keeps_request_id (Limit next)"
  unfolding keeps_request_id_def
proof (intro allI)
  fix w :: ResponseWriter and r :: Request and s :: Sys
  let ?s = "s\<lparr>limiter := snd (allow (limiter s) (RemoteAddr r) (clock r))\<rparr>"
  from assms obtain calls where
    "fst (next w r ?s) = w @ calls" "\<forall>v. SetHeader ''X-Request-ID'' v \<notin> set calls"
    "requestIDCounter (snd (next w r ?s)) = requestIDCounter ?s"
    unfolding keeps_request_id_def by blast
  then show "\<exists>calls. fst (Limit next w r s) = w @ calls \<and>
          (\<forall>v. SetHeader ''X-Request-ID'' v \<notin> set calls) \<and>
          requestIDCounter (snd (Limit next w r s)) = requestIDCounter s"
    by (simp add: Limit_def Let_def split_beta)
qed

lemma fold_set_header_other:
  "\<forall>v. SetHeader k v \<notin> set calls \<Longrightarrow> fold set_header calls h k = h k"
proof (induction calls arbitrary: h)
  case Nil
  then show ?case by simp
next
  case (Cons c calls)
  then have "fold set_header calls (set_header c h) k = set_header c h k" by simp
  moreover from Cons.prems have "set_header c h k = h k" by (cases c) auto
  ultimately show ?case by simp
qed

lemma header_after_set:
  assumes "\<forall>u. SetHeader k u \<notin> set calls"
  shows "header (response (SetHeader k v # calls)) k = Some v"
proof -
  have "\<forall>u. SetHeader k u \<notin> set (takeWhile is_SetHeader calls)"
    using assms by (auto dest: set_takeWhileD)
  then show ?thesis by (simp add: response_def fold_set_header_other)
qed

lemma serve_request_id:
  "header (fst (serve s r)) ''X-Request-ID'' =
     Some (''req-'' @ show_int (wrap_int (requestIDCounter s + 1)))"
  "requestIDCounter (snd (serve s r)) = wrap_int (requestIDCounter s + 1)"
proof -
  let ?inner = "Limit (APIKeyAuth validAPIKeys (ServeHTTP main_router))"
  let ?id = "''req-'' @ show_int (wrap_int (requestIDCounter s + 1))"
  let ?r = "r\<lparr>ctxRequestID := Some ?id\<rparr>"
  let ?s = "s\<lparr>requestIDCounter := wrap_int (requestIDCounter s + 1)\<rparr>"
  have "keeps_request_id ?inner"
    by (intro keeps_Limit keeps_APIKeyAuth keeps_main_router)
  then obtain calls where calls:
    "fst (?inner [SetHeader ''X-Request-ID'' ?id] ?r ?s) = [SetHeader ''X-Request-ID'' ?id] @ calls"
    "\<forall>v. SetHeader ''X-Request-ID'' v \<notin> set calls"
    "requestIDCounter (snd (?inner [SetHeader ''X-Request-ID'' ?id] ?r ?s)) = requestIDCounter ?s"
    unfolding keeps_request_id_def by blast
  have rid: "RequestID ?inner [] r s = ?inner [SetHeader ''X-Request-ID'' ?id] ?r ?s"
    by (simp add: RequestID_def Let_def)
  have w: "fst (main_handler [] r s) = SetHeader ''X-Request-ID'' ?id # calls"
    using calls(1) by (simp add: main_handler_eq Logger_def split_beta rid)
  have c: "requestIDCounter (snd (main_handler [] r s)) = wrap_int (requestIDCounter s + 1)"
    using calls(3) by (simp add: main_handler_eq Logger_def split_beta rid)
  show "header (fst (serve s r)) ''X-Request-ID'' = Some ?id"
    using w header_after_set [OF calls(2)] by (simp add: serve_def split_beta)
  show "requestIDCounter (snd (serve s r)) = wrap_int (requestIDCounter s + 1)"
    using c by (simp add: serve_def split_beta)
qed

lemma serve_all_request_ids:
  "map (\<lambda>resp. header resp ''X-Request-ID'') (fst (serve_all s rs)) =
     map (\<lambda>k. Some (''req-'' @ show_int (wrap_int (requestIDCounter s + int k))))
       [1 ..< Suc (length rs)]"
proof (induction rs arbitrary: s)
  case Nil
  then show ?case by simp
next
  case (Cons r rs)
  have "[1 ..< Suc (length (r # rs))] = 1 # map Suc [1 ..< Suc (length rs)]"
    by (simp add: upt_conv_Cons map_Suc_upt del: upt_Suc)
  then show ?case
    using Cons.IH [of "snd (serve s r)"] serve_request_id [of s r]
    by (simp add: split_beta comp_def add.assoc wrap_int_wrap_add del: upt_Suc)
qed

lemma serve_all_counter:
  "requestIDCounter (snd (serve_all s rs)) = wrap_int (requestIDCounter s + int (length rs))"
  if "wrap_int (requestIDCounter s) = requestIDCounter s"
  using that
proof (induction rs arbitrary: s)
  case Nil
  then show ?case by simp
next
  case (Cons r rs)
  have "wrap_int (requestIDCounter (snd (serve s r))) = requestIDCounter (snd (serve s r))"
    by (simp add: serve_request_id wrap_int_idem)
  from Cons.IH [OF this] show ?case
    by (simp add: split_beta serve_request_id wrap_int_wrap_add add.assoc)
qed

text \<open>
  Claim C9, as amended. Whatever the state and the request, the response of the server
  carries the header X-Request-ID with the value "req-" followed by the counter after
  its increment; the 401 and 429 replies are among these responses, since RequestID sets
  the header before the limiter and the key check run. The counter is a 64-bit int: a
  request adds one to it as long as it is below the largest int. So over a sequence of
  requests that does not take the counter \<open>c\<close> of the start beyond the largest int the IDs
  are "req-(c+1)", "req-(c+2)", ..., and no two of them are equal.
\<close>

theorem every_response_has_request_id:
  assumes "MinInt \<le> requestIDCounter s" "requestIDCounter s + int (length rs) \<le> MaxInt"
  shows "header (fst (serve t r)) ''X-Request-ID'' =
           Some (''req-'' @ show_int (requestIDCounter (snd (serve t r)))) \<and>
         requestIDCounter (snd (serve t r)) = wrap_int (requestIDCounter t + 1) \<and>
         (MinInt \<le> requestIDCounter t \<and> requestIDCounter t < MaxInt \<longrightarrow>
            requestIDCounter (snd (serve t r)) = requestIDCounter t + 1) \<and>
         map (\<lambda>resp. header resp ''X-Request-ID'') (fst (serve_all s rs)) =
           map (\<lambda>k. Some (''req-'' @ show_int (requestIDCounter s + int k)))
             [1 ..< Suc (length rs)] \<and>
         distinct (map (\<lambda>resp. header resp ''X-Request-ID'') (fst (serve_all s rs)))"
proof -
  have one: "header (fst (serve t r)) ''X-Request-ID'' =
               Some (''req-'' @ show_int (requestIDCounter (snd (serve t r))))"
    "requestIDCounter (snd (serve t r)) = wrap_int (requestIDCounter t + 1)"
    by (simp_all add: serve_request_id)
  have up: "MinInt \<le> requestIDCounter t \<and> requestIDCounter t < MaxInt \<longrightarrow>
              requestIDCounter (snd (serve t r)) = requestIDCounter t + 1"
    by (simp add: serve_request_id wrap_int_id)
  have same: "wrap_int (requestIDCounter s + int k) = requestIDCounter s + int k"
    if "k \<in> set [1 ..< Suc (length rs)]" for k
    using that assms by (intro wrap_int_id) auto
  have ids: "map (\<lambda>resp. header resp ''X-Request-ID'') (fst (serve_all s rs)) =
               map (\<lambda>k. Some (''req-'' @ show_int (requestIDCounter s + int k)))
                 [1 ..< Suc (length rs)]"
    unfolding serve_all_request_ids using same by (intro map_cong) simp_all
  have "inj_on (\<lambda>k. Some (''req-'' @ show_int (requestIDCounter s + int k)))
          (set [1 ..< Suc (length rs)])"
    by (rule inj_onI) (auto dest: show_int_inj)
  then have "distinct (map (\<lambda>k. Some (''req-'' @ show_int (requestIDCounter s + int k)))
               [1 ..< Suc (length rs)])"
    by (simp add: distinct_map del: upt_Suc)
  with one up ids show ?thesis by simp
qed

theorem every_response_has_request_id_witness:
  "MinInt \<le> requestIDCounter main_init \<and>
   requestIDCounter main_init +
     int (length [request ''GET'' ''/health'' [], request ''GET'' ''/health'' ''secret12345''])
     \<le> MaxInt \<and>
   map (\<lambda>resp. header resp ''X-Request-ID'')
     (fst (serve_all main_init
        [request ''GET'' ''/health'' [], request ''GET'' ''/health'' ''secret12345''])) =
     [Some ''req-1'', Some ''req-2'']"
proof -
  have h1: "MinInt \<le> requestIDCounter main_init"
    and h2: "requestIDCounter main_init +
      int (length [request ''GET'' ''/health'' [], request ''GET'' ''/health'' ''secret12345''])
      \<le> MaxInt"
    by (simp_all add: main_init_def MinInt_def MaxInt_def)
  have d: "show_int 1 = ''1''" "show_int 2 = ''2''"
    by (simp_all add: show_int_def show_nat.simps [of "Suc 0"] show_nat.simps [of 2])
  from every_response_has_request_id [OF h1 h2] h1 h2 d show ?thesis
    by (simp add: main_init_def)
qed

text \<open>
  Claim C9 as stated fails once the counter has wrapped: the \<open>2^63\<close>-th request of a server
  finds the counter at the largest int and leaves it at the smallest, and request number
  \<open>2^64 + 1\<close> gets the ID of the first, "req-1".
\<close>

theorem request_ids_wrap_around:
  "requestIDCounter (snd (serve_all main_init
      (replicate (2 ^ 63 - 1) (request ''GET'' ''/health'' [])))) = MaxInt \<and>
   requestIDCounter (snd (serve_all main_init
      (replicate (2 ^ 63) (request ''GET'' ''/health'' [])))) = MinInt \<and>
   \<not> distinct (map (\<lambda>resp. header resp ''X-Request-ID'')
        (fst (serve_all main_init (replicate (2 ^ 64 + 1) (request ''GET'' ''/health'' [])))))"
proof (intro conjI)
  have start: "wrap_int (requestIDCounter main_init) = requestIDCounter main_init"
    by (simp add: main_init_def wrap_int_def)
  show "requestIDCounter (snd (serve_all main_init
      (replicate (2 ^ 63 - 1) (request ''GET'' ''/health'' [])))) = MaxInt"
    unfolding serve_all_counter [OF start]
    by (simp add: main_init_def wrap_int_def MaxInt_def)
  show "requestIDCounter (snd (serve_all main_init
      (replicate (2 ^ 63) (request ''GET'' ''/health'' [])))) = MinInt"
    unfolding serve_all_counter [OF start]
    by (simp add: main_init_def wrap_int_def MinInt_def)
  let ?ids = "map (\<lambda>resp. header resp ''X-Request-ID'')
        (fst (serve_all main_init
           (replicate 18446744073709551617 (request ''GET'' ''/health'' []))))"
  have ids: "?ids = map (\<lambda>k. Some (''req-'' @ show_int (wrap_int (int k))))
                      [1 ..< 18446744073709551618]"
    by (simp add: serve_all_request_ids main_init_def del: upt_Suc)
  have i: "?ids ! 0 = Some (''req-'' @ show_int 1)"
    unfolding ids by (subst nth_map) (simp_all add: wrap_int_values)
  have j: "?ids ! 18446744073709551616 = Some (''req-'' @ show_int 1)"
    unfolding ids by (subst nth_map) (simp_all add: wrap_int_values)
  have len: "0 < length ?ids" "18446744073709551616 < length ?ids"
    unfolding ids by simp_all
  have "\<not> distinct ?ids"
  proof
    assume "distinct ?ids"
    moreover have "(0 :: nat) \<noteq> 18446744073709551616" by simp
    ultimately have "?ids ! 0 \<noteq> ?ids ! 18446744073709551616"
      using len by (simp only: distinct_conv_nth) blast
    with i j show False by simp
  qed
  then show "\<not> distinct (map (\<lambda>resp. header resp ''X-Request-ID'')
        (fst (serve_all main_init (replicate (2 ^ 64 + 1) (request ''GET'' ''/health'' [])))))"
    by simp
qed

subsection \<open>What the stages answer\<close>

lemma response_after_headers:
  assumes "list_all is_SetHeader w"
  shows "status (response (w @ SetHeader k v # WriteHeader code # Write p # [])) = code"
    and "body (response (w @ SetHeader k v # WriteHeader code # Write p # [])) = [p]"
proof -
  from assms have all: "\<And>c. c \<in> set w \<Longrightarrow> is_SetHeader c" by (simp add: list_all_iff)
  then have "dropWhile is_SetHeader (w @ SetHeader k v # WriteHeader code # Write p # []) =
               dropWhile is_SetHeader (SetHeader k v # WriteHeader code # Write p # [])"
    by (rule dropWhile_append2)
  then show "status (response (w @ SetHeader k v # WriteHeader code # Write p # [])) = code"
    by (simp add: response_def)
  have "written c = []" if "c \<in> set w" for c
    using all [OF that] by (cases c) simp_all
  then have "concat (map written w) = []" by simp
  then show "body (response (w @ SetHeader k v # WriteHeader code # Write p # [])) = [p]"
    by (simp add: response_def)
qed

lemma Limit_deny:
  assumes "\<not> fst (allow (limiter s) (RemoteAddr r) (clock r))"
  shows "Limit next w r s =
           (w @ [SetHeader ''Content-Type'' ''application/json'', WriteHeader 429,
                 Write (JError ''rate limit exceeded'')],
            s\<lparr>limiter := snd (allow (limiter s) (RemoteAddr r) (clock r))\<rparr>)"
  using assms by (simp add: Limit_def Let_def split_beta)

lemma Limit_pass:
  assumes "fst (allow (limiter s) (RemoteAddr r) (clock r))"
  shows "Limit next w r s =
           next w r (s\<lparr>limiter := snd (allow (limiter s) (RemoteAddr r) (clock r))\<rparr>)"
  using assms by (simp add: Limit_def Let_def split_beta)

lemma APIKeyAuth_deny:
  assumes "headerAPIKey r = [] \<or> validKeys (headerAPIKey r) \<noteq> Some True"
  shows "APIKeyAuth validKeys next w r s =
           (w @ [SetHeader ''Content-Type'' ''application/json'', WriteHeader 401,
                 Write (JError ''unauthorized'')], s)"
  using assms by (auto simp: APIKeyAuth_def Let_def split: option.splits)

lemma APIKeyAuth_pass:
  assumes "headerAPIKey r \<noteq> []" "validKeys (headerAPIKey r) = Some True"
  shows "APIKeyAuth validKeys next w r s = next w r s"
  using assms by (simp add: APIKeyAuth_def Let_def)

text \<open>
  Claim C8. \<open>Chain [m1, ..., mn] h\<close> is \<open>m1 (m2 (... (mn h)))\<close>; the handler of the server is
  Logger around RequestID around the limiter around APIKeyAuth around the router; and a
  denying stage answers by itself: when the limiter refuses, Limit returns its 429 reply,
  and when the key is missing or not in the list, APIKeyAuth returns its 401 reply, in both
  cases a result in which the next handler does not occur.
\<close>

theorem Chain_order_and_short_circuit:
  "Chain ms final = foldr (\<lambda>m h. m h) ms final \<and>
   Chain [m1, m2, m3, m4] final = m1 (m2 (m3 (m4 final))) \<and>
   main_handler = Logger (RequestID (Limit (APIKeyAuth validAPIKeys (ServeHTTP main_router)))) \<and>
   (\<not> fst (allow (limiter s) (RemoteAddr r) (clock r)) \<longrightarrow>
      Limit next w r s =
        (w @ [SetHeader ''Content-Type'' ''application/json'', WriteHeader 429,
              Write (JError ''rate limit exceeded'')],
         s\<lparr>limiter := snd (allow (limiter s) (RemoteAddr r) (clock r))\<rparr>)) \<and>
   (headerAPIKey r = [] \<or> validKeys (headerAPIKey r) \<noteq> Some True \<longrightarrow>
      APIKeyAuth validKeys next w r s =
        (w @ [SetHeader ''Content-Type'' ''application/json'', WriteHeader 401,
              Write (JError ''unauthorized'')], s))"
  using Limit_deny [of s r "next" w] APIKeyAuth_deny [of r validKeys "next" w s]
  by (simp add: Chain_foldr main_handler_eq)

lemma exhausted_denies:
  "\<not> fst (allow (limiter exhausted) ''10.0.0.1:4000'' (at 13))"
  by (simp add: exhausted_def main_init_def allow_def getVisitor_def allow_section_def Let_def
      at_def Minute_def burst_run)

theorem Chain_order_and_short_circuit_witness:
  "\<not> fst (allow (limiter exhausted) (RemoteAddr (request ''GET'' ''/health'' ''secret12345''))
           (clock (request ''GET'' ''/health'' ''secret12345''))) \<and>
   fst (Limit health [] (request ''GET'' ''/health'' ''secret12345'') exhausted) =
     [SetHeader ''Content-Type'' ''application/json'', WriteHeader 429,
      Write (JError ''rate limit exceeded'')] \<and>
   validAPIKeys (headerAPIKey (request ''GET'' ''/health'' ''guess'')) \<noteq> Some True \<and>
   APIKeyAuth validAPIKeys health [] (request ''GET'' ''/health'' ''guess'') main_init =
     ([SetHeader ''Content-Type'' ''application/json'', WriteHeader 401,
       Write (JError ''unauthorized'')], main_init)"
proof -
  have d: "\<not> fst (allow (limiter exhausted) (RemoteAddr (request ''GET'' ''/health'' ''secret12345''))
           (clock (request ''GET'' ''/health'' ''secret12345'')))"
    using exhausted_denies by (simp add: request_def)
  have k: "validAPIKeys (headerAPIKey (request ''GET'' ''/health'' ''guess'')) \<noteq> Some True"
    by (simp add: request_def validAPIKeys_def)
  from Chain_order_and_short_circuit
         [of "[]" health _ _ _ _ exhausted "request ''GET'' ''/health'' ''secret12345''" health "[]"]
       d
  have one: "fst (Limit health [] (request ''GET'' ''/health'' ''secret12345'') exhausted) =
     [SetHeader ''Content-Type'' ''application/json'', WriteHeader 429,
      Write (JError ''rate limit exceeded'')]"
    by simp
  from Chain_order_and_short_circuit
         [of "[]" health _ _ _ _ main_init "request ''GET'' ''/health'' ''guess''" health "[]"
             validAPIKeys]
       k
  have two: "APIKeyAuth validAPIKeys health [] (request ''GET'' ''/health'' ''guess'') main_init =
     ([SetHeader ''Content-Type'' ''application/json'', WriteHeader 401,
       Write (JError ''unauthorized'')], main_init)"
    by simp
  from d one k two show ?thesis by simp
qed

lemma serve_unfold:
  "serve s r =
     (let s1 = s\<lparr>requestIDCounter := wrap_int (requestIDCounter s + 1)\<rparr>;
          reqID = ''req-'' @ show_int (wrap_int (requestIDCounter s + 1));
          (w, s') = Limit (APIKeyAuth validAPIKeys (ServeHTTP main_router))
                      [SetHeader ''X-Request-ID'' reqID] (r\<lparr>ctxRequestID := Some reqID\<rparr>) s1
      in (response w,
          s'\<lparr>logged := logged s' @
                [\<lparr>logMethod = Method r, logPath = Path r,
                  logStatus = fold capture (drop 0 w) 200,
                  logRequestID = ctxRequestID r\<rparr>]\<rparr>))"
  by (simp add: serve_def main_handler_eq Logger_def RequestID_def Let_def split_beta)

lemma serve_denied:
  assumes "\<not> fst (allow (limiter s) (RemoteAddr r) (clock r))"
  shows "status (fst (serve s r)) = 429"
    and "body (fst (serve s r)) = [JError ''rate limit exceeded'']"
  using assms
    response_after_headers [of "[SetHeader ''X-Request-ID'' (''req-'' @ show_int (wrap_int (requestIDCounter s + 1)))]"
      "''Content-Type''" "''application/json''" 429 "JError ''rate limit exceeded''"]
  by (simp_all add: serve_unfold Let_def Limit_deny)

lemma serve_unauthorized:
  assumes "fst (allow (limiter s) (RemoteAddr r) (clock r))"
    and "headerAPIKey r = [] \<or> validAPIKeys (headerAPIKey r) \<noteq> Some True"
  shows "status (fst (serve s r)) = 401"
    and "body (fst (serve s r)) = [JError ''unauthorized'']"
  using assms
    response_after_headers [of "[SetHeader ''X-Request-ID'' (''req-'' @ show_int (wrap_int (requestIDCounter s + 1)))]"
      "''Content-Type''" "''application/json''" 401 "JError ''unauthorized''"]
  by (simp_all add: serve_unfold Let_def Limit_pass APIKeyAuth_deny)

lemma serve_health:
  assumes "Method r = ''GET''" "Path r = ''/health''"
    and "fst (allow (limiter s) (RemoteAddr r) (clock r))"
    and "headerAPIKey r \<noteq> []" "validAPIKeys (headerAPIKey r) = Some True"
  shows "status (fst (serve s r)) = 200"
    and \<open>body (fst (serve s r)) = [Bytes ''{"status":"healthy"}'']\<close>
  using assms
    response_after_headers [of "[SetHeader ''X-Request-ID'' (''req-'' @ show_int (wrap_int (requestIDCounter s + 1)))]"
      "''Content-Type''" "''application/json''" 200 \<open>Bytes ''{"status":"healthy"}''\<close>]
  by (simp_all add: serve_unfold Let_def Limit_pass APIKeyAuth_pass ServeHTTP_def
      main_router_routes health_def)

text \<open>
  Claim C3, as amended. The chain wraps the whole router, so the limiter and the key check
  stand before every route, /health included. A GET /health request that the limiter
  refuses is answered 429 "rate limit exceeded"; one that the limiter admits is answered
  200 with the body {"status":"healthy"} when it carries a key of the allow-list, and 401
  "unauthorized" when the key is missing or not in the list. The same 429 and 401 meet a
  request for any other path. So /health has two failure responses.
\<close>

theorem health_requires_api_key:
  assumes "Method r = ''GET''" "Path r = ''/health''"
  shows \<open>(\<not> fst (allow (limiter s) (RemoteAddr r) (clock r)) \<longrightarrow>
            status (fst (serve s r)) = 429 \<and>
            body (fst (serve s r)) = [JError ''rate limit exceeded'']) \<and>
         (fst (allow (limiter s) (RemoteAddr r) (clock r)) \<and>
          headerAPIKey r \<noteq> [] \<and> validAPIKeys (headerAPIKey r) = Some True \<longrightarrow>
            status (fst (serve s r)) = 200 \<and>
            body (fst (serve s r)) = [Bytes ''{"status":"healthy"}'']) \<and>
         (fst (allow (limiter s) (RemoteAddr r) (clock r)) \<and>
          (headerAPIKey r = [] \<or> validAPIKeys (headerAPIKey r) \<noteq> Some True) \<longrightarrow>
            status (fst (serve s r)) = 401 \<and>
            body (fst (serve s r)) = [JError ''unauthorized'']) \<and>
         (\<forall>r'. \<not> fst (allow (limiter s) (RemoteAddr r') (clock r')) \<longrightarrow>
               status (fst (serve s r')) = 429) \<and>
         (\<forall>r'. fst (allow (limiter s) (RemoteAddr r') (clock r')) \<and>
               (headerAPIKey r' = [] \<or> validAPIKeys (headerAPIKey r') \<noteq> Some True) \<longrightarrow>
               status (fst (serve s r')) = 401)\<close>
proof (intro conjI allI impI)
  assume "\<not> fst (allow (limiter s) (RemoteAddr r) (clock r))"
  then show "status (fst (serve s r)) = 429"
    "body (fst (serve s r)) = [JError ''rate limit exceeded'']"
    by (rule serve_denied)+
next
  assume "fst (allow (limiter s) (RemoteAddr r) (clock r)) \<and>
          headerAPIKey r \<noteq> [] \<and> validAPIKeys (headerAPIKey r) = Some True"
  then have a: "fst (allow (limiter s) (RemoteAddr r) (clock r))"
    and k: "headerAPIKey r \<noteq> []" "validAPIKeys (headerAPIKey r) = Some True"
    by simp_all
  show "status (fst (serve s r)) = 200"
    \<open>body (fst (serve s r)) = [Bytes ''{"status":"healthy"}'']\<close>
    by (rule serve_health [OF assms a k])+
next
  assume "fst (allow (limiter s) (RemoteAddr r) (clock r)) \<and>
          (headerAPIKey r = [] \<or> validAPIKeys (headerAPIKey r) \<noteq> Some True)"
  then have a: "fst (allow (limiter s) (RemoteAddr r) (clock r))"
    and k: "headerAPIKey r = [] \<or> validAPIKeys (headerAPIKey r) \<noteq> Some True"
    by simp_all
  show "status (fst (serve s r)) = 401" "body (fst (serve s r)) = [JError ''unauthorized'']"
    by (rule serve_unauthorized [OF a k])+
next
  fix r' :: Request
  assume "\<not> fst (allow (limiter s) (RemoteAddr r') (clock r'))"
  then show "status (fst (serve s r')) = 429" by (rule serve_denied)
next
  fix r' :: Request
  assume "fst (allow (limiter s) (RemoteAddr r') (clock r')) \<and>
          (headerAPIKey r' = [] \<or> validAPIKeys (headerAPIKey r') \<noteq> Some True)"
  then have a: "fst (allow (limiter s) (RemoteAddr r') (clock r'))"
    and k: "headerAPIKey r' = [] \<or> validAPIKeys (headerAPIKey r') \<noteq> Some True"
    by simp_all
  show "status (fst (serve s r')) = 401" by (rule serve_unauthorized [OF a k])
qed

lemma fresh_allows:
  "fst (allow (limiter main_init) ''10.0.0.1:4000'' (at 13))"
  by (simp add: main_init_def NewRateLimiter_def allow_def getVisitor_def allow_section_def
      Let_def at_def Minute_def)

text \<open>
  Claim C3 as stated fails: the first request to a new server, GET /health with no key, is
  answered 401.
\<close>

theorem health_without_key_is_401:
  "status (fst (serve main_init (request ''GET'' ''/health'' []))) = 401 \<and>
   body (fst (serve main_init (request ''GET'' ''/health'' []))) = [JError ''unauthorized'']"
proof -
  have "fst (allow (limiter main_init) (RemoteAddr (request ''GET'' ''/health'' []))
          (clock (request ''GET'' ''/health'' [])))"
    using fresh_allows by (simp add: request_def)
  moreover have "headerAPIKey (request ''GET'' ''/health'' []) = []"
    by (simp add: request_def)
  ultimately show ?thesis
    using serve_unauthorized [of main_init "request ''GET'' ''/health'' []"] by simp
qed

theorem health_requires_api_key_witness:
  \<open>Method (request ''GET'' ''/health'' ''secret12345'') = ''GET'' \<and>
   Path (request ''GET'' ''/health'' ''secret12345'') = ''/health'' \<and>
   fst (allow (limiter main_init) (RemoteAddr (request ''GET'' ''/health'' ''secret12345''))
          (clock (request ''GET'' ''/health'' ''secret12345''))) \<and>
   validAPIKeys (headerAPIKey (request ''GET'' ''/health'' ''secret12345'')) = Some True \<and>
   status (fst (serve main_init (request ''GET'' ''/health'' ''secret12345''))) = 200 \<and>
   body (fst (serve main_init (request ''GET'' ''/health'' ''secret12345''))) =
     [Bytes ''{"status":"healthy"}''] \<and>
   validAPIKeys (headerAPIKey (request ''GET'' ''/health'' ''guess'')) \<noteq> Some True \<and>
   status (fst (serve main_init (request ''GET'' ''/health'' ''guess''))) = 401 \<and>
   body (fst (serve main_init (request ''GET'' ''/health'' ''guess''))) =
     [JError ''unauthorized''] \<and>
   \<not> fst (allow (limiter exhausted) (RemoteAddr (request ''GET'' ''/health'' ''secret12345''))
          (clock (request ''GET'' ''/health'' ''secret12345''))) \<and>
   status (fst (serve exhausted (request ''GET'' ''/health'' ''secret12345''))) = 429 \<and>
   body (fst (serve exhausted (request ''GET'' ''/health'' ''secret12345''))) =
     [JError ''rate limit exceeded'']\<close>
proof -
  have m: "Method (request ''GET'' ''/health'' key) = ''GET''"
    and p: "Path (request ''GET'' ''/health'' key) = ''/health''" for key
    by (simp_all add: request_def)
  have k: "headerAPIKey (request ''GET'' ''/health'' ''secret12345'') \<noteq> []"
    and v: "validAPIKeys (headerAPIKey (request ''GET'' ''/health'' ''secret12345'')) = Some True"
    and g: "validAPIKeys (headerAPIKey (request ''GET'' ''/health'' ''guess'')) \<noteq> Some True"
    by (simp_all add: request_def validAPIKeys_def)
  have a: "fst (allow (limiter main_init) (RemoteAddr (request ''GET'' ''/health'' key))
          (clock (request ''GET'' ''/health'' key)))" for key
    using fresh_allows by (simp add: request_def)
  have d: "\<not> fst (allow (limiter exhausted)
          (RemoteAddr (request ''GET'' ''/health'' ''secret12345''))
          (clock (request ''GET'' ''/health'' ''secret12345'')))"
    using exhausted_denies by (simp add: request_def)
  from health_requires_api_key [OF m p, of main_init "''secret12345''"] a k v
  have 1: \<open>status (fst (serve main_init (request ''GET'' ''/health'' ''secret12345''))) = 200 \<and>
        body (fst (serve main_init (request ''GET'' ''/health'' ''secret12345''))) =
          [Bytes ''{"status":"healthy"}'']\<close>
    by blast
  from health_requires_api_key [OF m p, of main_init "''guess''"] a g
  have 2: "status (fst (serve main_init (request ''GET'' ''/health'' ''guess''))) = 401 \<and>
        body (fst (serve main_init (request ''GET'' ''/health'' ''guess''))) =
          [JError ''unauthorized'']"
    by blast
  from health_requires_api_key [OF m p, of exhausted "''secret12345''"] d
  have 3: "status (fst (serve exhausted (request ''GET'' ''/health'' ''secret12345''))) = 429 \<and>
        body (fst (serve exhausted (request ''GET'' ''/health'' ''secret12345''))) =
          [JError ''rate limit exceeded'']"
    by blast
  from m p a v g d 1 2 3 show ?thesis by blast
qed

lemma show_int_MaxTitleLength: "show_int MaxTitleLength = ''200''"
  by (simp add: MaxTitleLength_def show_int_def show_nat.simps [of 200] show_nat.simps [of 20]
      show_nat.simps [of 2])

lemma show_int_200: "show_int 200 = ''200''"
  using show_int_MaxTitleLength by (simp add: MaxTitleLength_def)

lemma trimLeft_none:
  "find (\<lambda>e. e \<noteq> [] \<and> take (length e) s = e) spaces = None \<Longrightarrow> trimLeft spaces s = s"
  by (subst trimLeft.simps) simp

lemma TrimSpace_a:
  "TrimSpace (replicate (Suc n) (CHR ''a'')) = replicate (Suc n) (CHR ''a'')"
proof -
  have l: "trimLeft whitespace (CHR ''a'' # cs) = CHR ''a'' # cs" for cs
    by (rule trimLeft_none) (simp add: whitespace_def)
  have r: "trimLeft (map rev whitespace) (CHR ''a'' # cs) = CHR ''a'' # cs" for cs
    by (rule trimLeft_none) (simp add: whitespace_def)
  have c: "replicate (Suc n) (CHR ''a'') = CHR ''a'' # replicate n (CHR ''a'')" by simp
  have 1: "trimLeft whitespace (replicate (Suc n) (CHR ''a'')) = replicate (Suc n) (CHR ''a'')"
    by (simp only: c l)
  have 2: "rev (replicate (Suc n) (CHR ''a'')) = replicate (Suc n) (CHR ''a'')"
    by (simp only: rev_replicate)
  have 3: "trimLeft (map rev whitespace) (replicate (Suc n) (CHR ''a'')) =
             replicate (Suc n) (CHR ''a'')"
    by (simp only: c r)
  show ?thesis by (simp only: TrimSpace_def 1 2 3)
qed

lemma TrimSpace_201:
  "TrimSpace (replicate 201 (CHR ''a'')) = replicate 201 (CHR ''a'')"
  using TrimSpace_a [of 200] by simp

lemma GetByID_task_Create:
  "GetByID_task (snd (Create w title)) (nextID (taskStore w)) =
     Inr \<lparr>ID = nextID (taskStore w), Title = title, Done = False\<rparr>"
proof -
  have "map_of (tasks (taskStore (snd (Create w title)))) (nextID (taskStore w)) =
          Some (length (heap w))"
    by (simp add: Create_result update_conv')
  from GetByID_task_present [OF this] show ?thesis by (simp add: Create_result)
qed


lemma CreateTask_empty:
  assumes "bodyTitle r = Some t" "TrimSpace t = []"
  shows "CreateTask w r s = (respondJSON w 400 (JError ''invalid title''), s)"
  using assms by (simp add: CreateTask_def)

lemma CreateTask_too_long:
  assumes "bodyTitle r = Some t" "200 < length (TrimSpace t)"
  shows "CreateTask w r s =
           (respondJSON w 400 (JError ''title exceeds maximum length of 200 characters''), s)"
proof -
  from assms(2) have "TrimSpace t \<noteq> []" by auto
  with assms show ?thesis
    by (simp add: CreateTask_def Let_def MaxTitleLength_def show_int_200)
qed




lemma CreateTask_created:
  assumes "bodyTitle r = Some t" "TrimSpace t \<noteq> []" "length (TrimSpace t) \<le> 200"
  shows "CreateTask w r s =
           (respondJSON w 201
              (JTask (heap (snd (store_run_wrap (snd (Create_wrap (world s) (TrimSpace t)))
                                   (meanwhile r))) ! length (heap (world s)))),
            s\<lparr>world := snd (store_run_wrap (snd (Create_wrap (world s) (TrimSpace t)))
                              (meanwhile r))\<rparr>)"
  using assms by (simp add: CreateTask_def Let_def MaxTitleLength_def Create_wrap_result)


lemma response_respondJSON:
  assumes "list_all is_SetHeader w"
  shows "status (response (respondJSON w code p)) = code"
    and "body (response (respondJSON w code p)) = [p]"
  using response_after_headers [OF assms] by (simp_all add: respondJSON_def)







text \<open>
  And the flag of the 201 reply is read through the pointer Create returned, after the
  store's lock has been released: an Update of the new ID by another request that comes
  first shows in the reply.
\<close>

lemma CreateTask_reply_shows_later_Update:
  "body (response (fst (CreateTask [SetHeader ''X-Request-ID'' ''req-1'']
     ((post (Some ''buy milk''))\<lparr>meanwhile := [OpUpdate 1 True]\<rparr>) main_init))) =
     [JTask \<lparr>ID = 1, Title = ''buy milk'', Done = True\<rparr>]"
proof -
  have h: "list_all is_SetHeader [SetHeader ''X-Request-ID'' ''req-1'']" by simp
  have milk: "TrimSpace ''buy milk'' = ''buy milk''" by code_simp
  have c: "CreateTask [SetHeader ''X-Request-ID'' ''req-1'']
             ((post (Some ''buy milk''))\<lparr>meanwhile := [OpUpdate 1 True]\<rparr>) main_init =
           (respondJSON [SetHeader ''X-Request-ID'' ''req-1''] 201
              (JTask (heap (snd (store_run_wrap (snd (Create_wrap (world main_init) ''buy milk''))
                                   [OpUpdate 1 True])) ! length (heap (world main_init)))),
            main_init\<lparr>world := snd (store_run_wrap
                                      (snd (Create_wrap (world main_init) ''buy milk''))
                                      [OpUpdate 1 True])\<rparr>)"
    using CreateTask_created [of "(post (Some ''buy milk''))\<lparr>meanwhile := [OpUpdate 1 True]\<rparr>"
        "''buy milk''" "[SetHeader ''X-Request-ID'' ''req-1'']" main_init]
    by (simp add: post_def milk)
  show ?thesis
    unfolding c
    by (simp add: response_respondJSON [OF h] Create_wrap_result main_init_def NewWorld_def
        NewTaskStore_def Update_def)
qed

lemma TrimSpace_empty: "TrimSpace [] = []"
  by code_simp

text \<open>
  Claim C10. Create takes any title: it returns a pointer to a new record with that title,
  the next ID and \<open>Done = False\<close>, stored under that ID, and GetByID then returns this
  record. So the store accepts the empty title and a title of 201 bytes, both of which
  CreateTask refuses with 400 without touching the store.
\<close>

theorem Create_never_validates:
  "fst (Create w title) = length (heap w) \<and>
   deref (heap (snd (Create w title))) (fst (Create w title)) =
     Some \<lparr>ID = nextID (taskStore w), Title = title, Done = False\<rparr> \<and>
   map_of (tasks (taskStore (snd (Create w title)))) (nextID (taskStore w)) =
     Some (fst (Create w title)) \<and>
   GetByID_task (snd (Create w title)) (nextID (taskStore w)) =
     Inr \<lparr>ID = nextID (taskStore w), Title = title, Done = False\<rparr> \<and>
   Title (heap (snd (Create w [])) ! fst (Create w [])) = [] \<and>
   length (Title (heap (snd (Create w (replicate 201 (CHR ''a'')))) !
      fst (Create w (replicate 201 (CHR ''a''))))) = 201 \<and>
   CreateTask [] (r\<lparr>bodyTitle := Some []\<rparr>) s =
     (respondJSON [] 400 (JError ''invalid title''), s) \<and>
   CreateTask [] (r\<lparr>bodyTitle := Some (replicate 201 (CHR ''a''))\<rparr>) s =
     (respondJSON [] 400 (JError ''title exceeds maximum length of 200 characters''), s)"
proof -
  have e: "CreateTask [] (r\<lparr>bodyTitle := Some []\<rparr>) s =
             (respondJSON [] 400 (JError ''invalid title''), s)"
    by (rule CreateTask_empty [of _ "[]"]) (simp_all add: TrimSpace_empty)
  have l: "CreateTask [] (r\<lparr>bodyTitle := Some (replicate 201 (CHR ''a''))\<rparr>) s =
             (respondJSON [] 400 (JError ''title exceeds maximum length of 200 characters''), s)"
    by (rule CreateTask_too_long [of _ "replicate 201 (CHR ''a'')"])
       (simp_all add: TrimSpace_201)
  show ?thesis
    using e l GetByID_task_Create [of w title]
    by (simp add: Create_result deref_def update_conv')
qed

end
